theory Spec2Isabelle
  imports Main "HOL-Library.Word"
begin

section \<open>zenc: the command-line driver of libslz (src/zenc.c)\<close>

text \<open>
  The development embeds \<^verbatim>\<open>main\<close> of \<^verbatim>\<open>src/zenc.c\<close>: the option loop, the
  buffer sizing, the resolution of the number of bytes to read, the pass loop with its
  inner read/encode/flush loop, the summary line and the exit status.

  Conventions of the embedding:
  \<^item> \<^verbatim>\<open>off_t\<close>, \<^verbatim>\<open>ssize_t\<close> and \<^verbatim>\<open>int\<close> variables are \<open>int\<close>; \<^verbatim>\<open>size_t\<close> values
    are \<open>nat\<close>. The two casts of the source, \<^verbatim>\<open>(uint32_t)block_size\<close> and
    \<^verbatim>\<open>(size_t)toread\<close>, are written out with \<open>mod\<close> (a 64-bit \<^verbatim>\<open>size_t\<close>).
    Byte totals stay far below \<open>2^63\<close>, so their additions are not wrapped.
  \<^item> The bytes \<^verbatim>\<open>outbuf[0 .. outblen)\<close> are the list \<open>outbuf\<close>; \<^verbatim>\<open>outblen\<close> is its
    length. Bytes of the allocation beyond \<^verbatim>\<open>outblen\<close> are never read by \<^verbatim>\<open>main\<close>.
  \<^item> The operating system is explicit: what \<^verbatim>\<open>read\<close> and \<^verbatim>\<open>write\<close> return is
    scripted in the state, every call of \<^verbatim>\<open>write(1, ...)\<close> is logged with its
    return value, and every \<^verbatim>\<open>exit\<close> is a result of its own.
  \<^item> The inner \<^verbatim>\<open>do ... while (more)\<close> loop need not end (a byte count larger than the
    source keeps reading nothing); it is run with fuel, and running out of fuel is the
    result \<open>Running\<close>.
\<close>

subsection \<open>The encoder interface (slz.h)\<close>

type_synonym byte = "8 word"

datatype fmt = SLZ_FMT_GZIP | SLZ_FMT_ZLIB | SLZ_FMT_DEFLATE

text \<open>
  Modelled from the spec: the compression library (\<^verbatim>\<open>slz.h\<close>, \<^verbatim>\<open>slz.c\<close>) is not part
  of the sources at hand. The spec gives it as a capability interface,
  \<^verbatim>\<open>init(effort, framing) -> Session\<close>, \<^verbatim>\<open>encode(Session, chunk, isFinal) -> bytes\<close>,
  \<^verbatim>\<open>finish(Session) -> bytes\<close>, "each call advancing encoder-internal state opaquely".
  The driver's code is parametrised by such an interface over a session type \<open>'s\<close>.
  \<open>slz_encode\<close> takes the flag \<^verbatim>\<open>more\<close> as \<^verbatim>\<open>main\<close> passes it (non-zero: more input
  follows); \<open>crc32\<close> reads the field \<^verbatim>\<open>strm.crc32\<close>.
\<close>

record 's slz_api =
  slz_init :: "int \<Rightarrow> fmt \<Rightarrow> 's"
  slz_encode :: "'s \<Rightarrow> byte list \<Rightarrow> int \<Rightarrow> byte list \<times> 's"
  slz_finish :: "'s \<Rightarrow> byte list \<times> 's"
  crc32 :: "'s \<Rightarrow> 32 word"

text \<open>
  Modelled from the spec: the worst-case output of the absent encoder. The spec sizes the
  staging buffer "to absorb one full block's worst-case expansion plus framing overhead"
  within the 4 KiB headroom: a chunk of at most one block encodes to at most one block
  plus 4096 bytes, and so does the trailer of \<open>slz_finish\<close>.
\<close>

definition enc_bounded :: "'s slz_api \<Rightarrow> nat \<Rightarrow> bool" where
  "enc_bounded E bs \<longleftrightarrow>
     (\<forall>s c m. length c \<le> bs \<longrightarrow> length (fst (slz_encode E s c m)) \<le> bs + 4096) \<and>
     (\<forall>s. length (fst (slz_finish E s)) \<le> bs + 4096)"

subsection \<open>The operating system: read, write, open, fstat, isatty, calloc\<close>

datatype rd_outcome = RdFail | RdShort nat

text \<open>
  An input source: the bytes from the current file offset on, the script of the next
  \<^verbatim>\<open>read\<close> calls (\<open>RdFail\<close>: the call returns -1; \<open>RdShort k\<close>: it returns at most
  \<open>k\<close> bytes; past the script a call returns all it was asked for, up to the end of the
  data), and what \<^verbatim>\<open>fstat\<close> reports as \<^verbatim>\<open>st_size\<close> (\<open>None\<close>: \<^verbatim>\<open>fstat\<close> returns -1).
\<close>

record source =
  data :: "byte list"
  rd_plan :: "rd_outcome list"
  st_size :: "nat option"

definition sys_read :: "source \<Rightarrow> nat \<Rightarrow> (byte list \<times> source) option" where
  "sys_read f count =
     (case rd_plan f of
        [] \<Rightarrow> Some (take count (data f), f\<lparr>data := drop count (data f)\<rparr>)
      | RdFail # p \<Rightarrow> None
      | RdShort k # p \<Rightarrow>
          Some (take (min k count) (data f),
                f\<lparr>data := drop (min k count) (data f), rd_plan := p\<rparr>))"

datatype wr_outcome = WrFail | WrShort nat

text \<open>
  \<^verbatim>\<open>write(1, buf, n)\<close> against a script: \<open>WrFail\<close> returns -1, \<open>WrShort k\<close> writes
  at most \<open>k\<close> bytes, and past the script the call writes all \<open>n\<close> bytes. The result is
  the return value and the rest of the script.
\<close>

definition sys_write :: "wr_outcome list \<Rightarrow> byte list \<Rightarrow> int \<times> wr_outcome list" where
  "sys_write plan buf =
     (case plan of
        [] \<Rightarrow> (int (length buf), [])
      | WrFail # p \<Rightarrow> (- 1, p)
      | WrShort k # p \<Rightarrow> (int (min k (length buf)), p))"

record world =
  isatty1 :: bool
  files :: "string \<Rightarrow> source option"
  stdin_src :: source
  calloc_ok :: "nat \<Rightarrow> bool"
  wr_script :: "wr_outcome list"

subsection \<open>The variables of main\<close>

text \<open>
  The locals of \<^verbatim>\<open>main\<close> (lines 103-122), with the source behind \<^verbatim>\<open>fd\<close>, the write
  script and the log of the \<^verbatim>\<open>write\<close> calls made so far (the buffer handed over and the
  value returned).
\<close>

record 's vars =
  strm :: 's
  fd :: source
  toread :: int
  outbuf :: "byte list"
  totin :: int
  totout :: int
  loops :: int
  console :: int
  level :: int
  verbose :: int
  test :: int
  format :: fmt
  force :: int
  error :: int
  wr_plan :: "wr_outcome list"
  wlog :: "(byte list \<times> int) list"

text \<open>
  The initialisers of the declarations. \<^verbatim>\<open>struct slz_stream strm\<close> has none: its
  content is whatever the stack holds, the parameter \<open>strm0\<close>. \<^verbatim>\<open>outblen\<close> has none
  either, but every pass sets it to 0 before it is read: the filled part of \<^verbatim>\<open>outbuf\<close>
  is empty until then.
\<close>

definition init_vars :: "'s \<Rightarrow> world \<Rightarrow> 's vars" where
  "init_vars strm0 w =
     \<lparr>strm = strm0, fd = stdin_src w, toread = - 1, outbuf = [], totin = 0, totout = 0,
      loops = 1, console = 1, level = 3, verbose = 0, test = 0, format = SLZ_FMT_GZIP,
      force = 0, error = 0, wr_plan = wr_script w, wlog = []\<rparr>"

subsection \<open>The option loop (lines 130-185)\<close>

definition is_level_opt :: "string \<Rightarrow> bool" where
  "is_level_opt a =
     (case a of
        c0 # c1 # _ \<Rightarrow> c0 = CHR ''-'' \<and> (48::nat) \<le> of_char c1 \<and> of_char c1 \<le> (57::nat)
      | _ \<Rightarrow> False)"

definition level_of_opt :: "string \<Rightarrow> int" where
  "level_of_opt a = int (of_char (a ! 1)) - 48"

text \<open>
  \<open>Inl code\<close> is \<^verbatim>\<open>usage(name, code)\<close>, which exits; \<open>Inr (v, rest)\<close> is the state
  with the arguments that are left. \<^verbatim>\<open>atoll\<close> and \<^verbatim>\<open>atoi\<close> are the C library's.
\<close>

fun parse_args ::
  "(string \<Rightarrow> int) \<Rightarrow> (string \<Rightarrow> int) \<Rightarrow> 's vars \<Rightarrow> string list \<Rightarrow> int + ('s vars \<times> string list)"
where
  "parse_args atoll atoi v [] = Inr (v, [])"
| "parse_args atoll atoi v (a # as) =
     (if take 1 a \<noteq> ''-'' then Inr (v, a # as)
      else if is_level_opt a then parse_args atoll atoi (v\<lparr>level := level_of_opt a\<rparr>) as
      else if a = ''-b'' then
        (case as of
           [] \<Rightarrow> Inl 1
         | x # as' \<Rightarrow> parse_args atoll atoi (v\<lparr>toread := atoll x\<rparr>) as')
      else if a = ''-c'' then parse_args atoll atoi (v\<lparr>console := 1\<rparr>) as
      else if a = ''-f'' then parse_args atoll atoi (v\<lparr>force := 1\<rparr>) as
      else if a = ''-h'' then Inl 0
      else if a = ''-l'' then
        (case as of
           [] \<Rightarrow> Inl 1
         | x # as' \<Rightarrow> parse_args atoll atoi (v\<lparr>loops := atoi x\<rparr>) as')
      else if a = ''-n'' then parse_args atoll atoi v as
      else if a = ''-t'' then parse_args atoll atoi (v\<lparr>test := 1\<rparr>) as
      else if a = ''-v'' then parse_args atoll atoi (v\<lparr>verbose := verbose v + 1\<rparr>) as
      else if a = ''-D'' then parse_args atoll atoi (v\<lparr>format := SLZ_FMT_DEFLATE\<rparr>) as
      else if a = ''-G'' then parse_args atoll atoi (v\<lparr>format := SLZ_FMT_GZIP\<rparr>) as
      else if a = ''-Z'' then parse_args atoll atoi (v\<lparr>format := SLZ_FMT_ZLIB\<rparr>) as
      else Inl 1)"

subsection \<open>Buffer sizing (lines 201-208)\<close>

definition block_size_of :: "int \<Rightarrow> nat" where
  "block_size_of lvl =
     (let b = 32768;
          b = (if lvl > 1 then b * 4 else b);
          b = (if lvl > 2 then b * 8 else b)
      in b)"

text \<open>\<^verbatim>\<open>outbsize = 2 * block_size\<close>, and the size handed to \<^verbatim>\<open>calloc\<close> for \<^verbatim>\<open>outbuf\<close>.\<close>

definition outbsize_of :: "nat \<Rightarrow> nat" where
  "outbsize_of block_size = 2 * block_size"

definition outbuf_alloc :: "nat \<Rightarrow> nat" where
  "outbuf_alloc outbsize = outbsize + 4096"

subsection \<open>The pass loop (lines 233-269)\<close>

type_synonym write_log = "(byte list \<times> int) list"

datatype 'a res = Running write_log | Overrun write_log | Exits int write_log | Finished 'a

text \<open>
  \<open>Running\<close>: the fuel ran out with the loop still going. \<open>Overrun\<close>: the encoder was
  made to write past the end of the allocation of \<^verbatim>\<open>outbuf\<close> (undefined behaviour in C).
  \<open>Exits code\<close>: \<^verbatim>\<open>exit(code)\<close>. Each holds the log of the writes made until then.
\<close>

text \<open>Lines 239-242: the length to ask for, and the flag \<^verbatim>\<open>more\<close>.\<close>

definition chunk_request :: "nat \<Rightarrow> int \<Rightarrow> nat \<Rightarrow> int \<Rightarrow> nat \<times> int" where
  "chunk_request block_size tr count more0 =
     (if tr < int (block_size mod 2 ^ 32) then (nat (tr mod 2 ^ 64), 0) else (count, more0))"

text \<open>
  The guarded write of lines 256-258 and 266-268:
  \<^verbatim>\<open>if (console && !test && !error) if (write(1, outbuf, outblen) < 0) error = 1;\<close>
\<close>

definition emit :: "'s vars \<Rightarrow> 's vars" where
  "emit v =
     (if console v \<noteq> 0 \<and> test v = 0 \<and> error v = 0 then
        (let (r, p) = sys_write (wr_plan v) (outbuf v)
         in v\<lparr>error := (if r < 0 then 1 else error v), wr_plan := p,
              wlog := wlog v @ [(outbuf v, r)]\<rparr>)
      else v)"

text \<open>Lines 254-261: the flush test after a chunk.\<close>

definition flush_check :: "nat \<Rightarrow> nat \<Rightarrow> 's vars \<Rightarrow> 's vars" where
  "flush_check block_size outbsize v =
     (if length (outbuf v) + block_size > outbsize then
        (let v1 = emit v
         in v1\<lparr>totout := totout v1 + int (length (outbuf v1)), outbuf := []\<rparr>)
      else v)"

text \<open>
  One round of the \<^verbatim>\<open>do ... while (more)\<close> loop, lines 239-261. The result holds
  \<^verbatim>\<open>count\<close> and \<^verbatim>\<open>more\<close> as the round leaves them.
\<close>

definition chunk_round ::
  "'s slz_api \<Rightarrow> nat \<Rightarrow> nat \<Rightarrow> nat \<Rightarrow> int \<Rightarrow> 's vars \<Rightarrow> (nat \<times> int \<times> 's vars) res"
where
  "chunk_round E block_size outbsize count more0 v =
     (let (count1, more1) = chunk_request block_size (toread v) count more0
      in case sys_read (fd v) count1 of
           None \<Rightarrow> Exits 2 (wlog v)
         | Some (buf, f) \<Rightarrow>
             (let ret = int (length buf);
                  v1 = v\<lparr>fd := f, toread := toread v - ret, totin := totin v + ret\<rparr>;
                  (enc, st) = slz_encode E (strm v1) buf more1;
                  v2 = v1\<lparr>strm := st, outbuf := outbuf v1 @ enc\<rparr>
              in if length (outbuf v2) > outbuf_alloc outbsize then Overrun (wlog v2)
                 else Finished (count1, more1, flush_check block_size outbsize v2)))"

text \<open>The loop, one unit of fuel per round.\<close>

fun chunks ::
  "'s slz_api \<Rightarrow> nat \<Rightarrow> nat \<Rightarrow> nat \<Rightarrow> nat \<Rightarrow> int \<Rightarrow> 's vars \<Rightarrow> 's vars res"
where
  "chunks E block_size outbsize 0 count more0 v = Running (wlog v)"
| "chunks E block_size outbsize (Suc k) count more0 v =
     (case chunk_round E block_size outbsize count more0 v of
        Running l \<Rightarrow> Running l
      | Overrun l \<Rightarrow> Overrun l
      | Exits c l \<Rightarrow> Exits c l
      | Finished (count1, more1, v1) \<Rightarrow>
          if more1 \<noteq> 0 then chunks E block_size outbsize k count1 more1 v1
          else Finished v1)"

text \<open>Lines 264-268: the trailer, the total and the last write of a pass.\<close>

definition finish_pass :: "'s slz_api \<Rightarrow> nat \<Rightarrow> 's vars \<Rightarrow> 's vars res" where
  "finish_pass E outbsize v =
     (let (tr, st) = slz_finish E (strm v);
          v1 = v\<lparr>strm := st, outbuf := outbuf v @ tr\<rparr>
      in if length (outbuf v1) > outbuf_alloc outbsize then Overrun (wlog v1)
         else Finished (emit (v1\<lparr>totout := totout v1 + int (length (outbuf v1))\<rparr>)))"

text \<open>
  One pass is the body of \<^verbatim>\<open>while (loops--)\<close>, lines 234-268, with \<^verbatim>\<open>count\<close> and
  \<^verbatim>\<open>more\<close> at their initialisers; \<open>passes\<close> runs it \<open>n\<close> times, every pass with the
  same fuel for its inner loop. The count-down is the argument \<open>n\<close>: the field \<open>loops\<close>
  keeps the number parsed, which nothing reads after the loop.
\<close>

definition one_pass :: "'s slz_api \<Rightarrow> nat \<Rightarrow> nat \<Rightarrow> nat \<Rightarrow> 's vars \<Rightarrow> 's vars res" where
  "one_pass E block_size outbsize fuel v =
     (let v0 = v\<lparr>strm := slz_init E (if level v \<noteq> 0 then 1 else 0) (format v), outbuf := []\<rparr>
      in case chunks E block_size outbsize fuel block_size 1 v0 of
           Running l \<Rightarrow> Running l
         | Overrun l \<Rightarrow> Overrun l
         | Exits c l \<Rightarrow> Exits c l
         | Finished v1 \<Rightarrow> finish_pass E outbsize v1)"

fun passes :: "'s slz_api \<Rightarrow> nat \<Rightarrow> nat \<Rightarrow> nat \<Rightarrow> nat \<Rightarrow> 's vars \<Rightarrow> 's vars res" where
  "passes E block_size outbsize fuel 0 v = Finished v"
| "passes E block_size outbsize fuel (Suc n) v =
     (case one_pass E block_size outbsize fuel v of
        Running l \<Rightarrow> Running l
      | Overrun l \<Rightarrow> Overrun l
      | Exits c l \<Rightarrow> Exits c l
      | Finished v1 \<Rightarrow> passes E block_size outbsize fuel n v1)"

text \<open>
  \<^verbatim>\<open>while (loops--)\<close> on a 32-bit \<^verbatim>\<open>int\<close>: \<open>loops\<close> passes when \<open>loops\<close> is not
  negative. A negative count is decremented past \<^verbatim>\<open>INT_MIN\<close>, which C leaves undefined;
  here it wraps around.
\<close>

definition pass_count :: "int \<Rightarrow> nat" where
  "pass_count l = nat (l mod 2 ^ 32)"

subsection \<open>The summary line and main\<close>

text \<open>
  The value of \<^verbatim>\<open>totout * 100.0 / totin\<close>, a division of doubles: a zero divisor gives
  an infinity or a NaN, as IEEE 754 has it. Rounding is not modelled: a finite quotient
  is kept as its two operands.
\<close>

datatype fval = Finite int int | PInf | NInf | NaN

definition fdiv :: "int \<Rightarrow> int \<Rightarrow> fval" where
  "fdiv n d = (if d = 0 then (if n = 0 then NaN else if 0 < n then PInf else NInf) else Finite n d)"

text \<open>What line 271 prints when \<^verbatim>\<open>verbose\<close> is set.\<close>

record summary =
  s_totin :: int
  s_totout :: int
  s_ratio :: fval
  s_crc32 :: "32 word"

definition report :: "'s slz_api \<Rightarrow> 's vars \<Rightarrow> summary option" where
  "report E v =
     (if verbose v \<noteq> 0 then
        Some \<lparr>s_totin = totin v, s_totout = totout v,
              s_ratio = fdiv (totout v * 100) (totin v), s_crc32 = crc32 E (strm v)\<rparr>
      else None)"

text \<open>
  Lines 187-193: \<^verbatim>\<open>fd\<close> stays standard input unless a file name is left, which is
  opened (\<open>None\<close>: \<^verbatim>\<open>open\<close> returns -1).
\<close>

definition open_input :: "world \<Rightarrow> 's vars \<Rightarrow> string list \<Rightarrow> source option" where
  "open_input w v rest = (case rest of [] \<Rightarrow> Some (fd v) | name # _ \<Rightarrow> files w name)"

text \<open>
  Lines 219-225: a negative \<^verbatim>\<open>toread\<close> is replaced by the size \<^verbatim>\<open>fstat\<close> reports
  (\<open>None\<close>: \<^verbatim>\<open>fstat\<close> returns -1).
\<close>

definition resolve_toread :: "int \<Rightarrow> source \<Rightarrow> int option" where
  "resolve_toread tr f = (if tr < 0 then map_option int (st_size f) else Some tr)"

text \<open>
  Lines 187-231, between the option loop and the pass loop: the input is opened, a
  terminal is refused, the two buffers are allocated and \<^verbatim>\<open>toread\<close> is resolved.
  \<open>Inl code\<close> is \<^verbatim>\<open>exit(code)\<close>.
\<close>

definition prepare :: "world \<Rightarrow> 's vars \<Rightarrow> string list \<Rightarrow> int + 's vars" where
  "prepare w v rest =
     (case open_input w v rest of
        None \<Rightarrow> Inl 1
      | Some f \<Rightarrow>
          if isatty1 w \<and> test v = 0 \<and> force v = 0 then Inl 1
          else
            (let block_size = block_size_of (level v);
                 outbsize = outbsize_of block_size
             in if \<not> calloc_ok w (outbuf_alloc outbsize) then Inl 1
                else
                  (case resolve_toread (toread v) f of
                     None \<Rightarrow> Inl 1
                   | Some tr \<Rightarrow>
                       if \<not> calloc_ok w block_size then Inl 1
                       else Inr (v\<lparr>fd := f, toread := tr\<rparr>))))"

text \<open>
  Lines 187-274, all that follows the option loop. The sizes are those \<open>prepare\<close>
  allocated with, computed once for all passes. The result of a run that reaches
  \<^verbatim>\<open>return error\<close> is the final state with the summary printed; the exit status is its
  \<open>error\<close>.
\<close>

definition run ::
  "'s slz_api \<Rightarrow> nat \<Rightarrow> world \<Rightarrow> 's vars \<Rightarrow> string list \<Rightarrow> ('s vars \<times> summary option) res"
where
  "run E fuel w v rest =
     (case prepare w v rest of
        Inl code \<Rightarrow> Exits code (wlog v)
      | Inr v0 \<Rightarrow>
          (let block_size = block_size_of (level v0);
               outbsize = outbsize_of block_size
           in case passes E block_size outbsize fuel (pass_count (loops v0)) v0 of
                Running l \<Rightarrow> Running l
              | Overrun l \<Rightarrow> Overrun l
              | Exits c l \<Rightarrow> Exits c l
              | Finished v' \<Rightarrow> Finished (v', report E v')))"

text \<open>\<^verbatim>\<open>main\<close>, on the arguments after the program's name.\<close>

definition zenc_main ::
  "(string \<Rightarrow> int) \<Rightarrow> (string \<Rightarrow> int) \<Rightarrow> 's slz_api \<Rightarrow> 's \<Rightarrow> nat \<Rightarrow> string list \<Rightarrow> world
     \<Rightarrow> ('s vars \<times> summary option) res"
where
  "zenc_main atoll atoi E strm0 fuel args w =
     (case parse_args atoll atoi (init_vars strm0 w) args of
        Inl code \<Rightarrow> Exits code []
      | Inr (v, rest) \<Rightarrow> run E fuel w v rest)"

text \<open>The exit status of a run that ended.\<close>

fun exit_status :: "('s vars \<times> summary option) res \<Rightarrow> int option" where
  "exit_status (Finished (v, r)) = Some (error v)"
| "exit_status (Exits c l) = Some c"
| "exit_status (Running l) = None"
| "exit_status (Overrun l) = None"

subsection \<open>Sample instances for evaluation\<close>

text \<open>
  The theorems below hold for every encoder and every \<^verbatim>\<open>atoll\<close>/\<^verbatim>\<open>atoi\<close>. To run
  \<open>zenc_main\<close> on concrete command lines, these stand-ins are used: an encoder that
  stores each chunk behind a one-byte header (1 on the final chunk, 0 otherwise), ends
  the stream with one trailer byte, and keeps the number of bytes seen where the real
  one keeps a CRC; and a decimal \<^verbatim>\<open>atoi\<close> (white space, an optional sign, digits).
\<close>

definition stored_slz :: "nat slz_api" where
  "stored_slz =
     \<lparr>slz_init = (\<lambda>lvl f. 0),
      slz_encode = (\<lambda>s c m. ((if m \<noteq> 0 then 0 else 1) # c, s + length c)),
      slz_finish = (\<lambda>s. ([255], s)),
      crc32 = of_nat\<rparr>"

fun digits_val :: "int \<Rightarrow> string \<Rightarrow> int" where
  "digits_val acc [] = acc"
| "digits_val acc (c # cs) =
     (if (48::nat) \<le> of_char c \<and> of_char c \<le> (57::nat)
      then digits_val (acc * 10 + (int (of_char c) - 48)) cs
      else acc)"

definition c_atoi :: "string \<Rightarrow> int" where
  "c_atoi s =
     (case dropWhile (\<lambda>c. c = CHR '' '' \<or> (9::nat) \<le> of_char c \<and> of_char c \<le> (13::nat)) s of
        [] \<Rightarrow> 0
      | c # r \<Rightarrow>
          if c = CHR ''-'' then - digits_val 0 r
          else if c = CHR ''+'' then digits_val 0 r
          else digits_val 0 (c # r))"

text \<open>
  A world with one regular file, named \<^verbatim>\<open>f\<close>, of the given content, an empty standard
  input, every allocation succeeding and the given write script.
\<close>

definition file_src :: "byte list \<Rightarrow> source" where
  "file_src bs = \<lparr>data = bs, rd_plan = [], st_size = Some (length bs)\<rparr>"

definition one_file :: "bool \<Rightarrow> byte list \<Rightarrow> wr_outcome list \<Rightarrow> world" where
  "one_file tty bs ws =
     \<lparr>isatty1 = tty,
      files = (\<lambda>name. if name = ''f'' then Some (file_src bs) else None),
      stdin_src = file_src [],
      calloc_ok = (\<lambda>n. True),
      wr_script = ws\<rparr>"

text \<open>
  A world whose standard input is a pipe that holds the given bytes: \<^verbatim>\<open>read\<close> delivers
  them, and \<^verbatim>\<open>fstat\<close> reports a size of 0, as it does for a pipe. No file can be opened,
  standard output is not a terminal, every allocation and every write succeeds.
\<close>

definition pipe_src :: "byte list \<Rightarrow> source" where
  "pipe_src bs = \<lparr>data = bs, rd_plan = [], st_size = Some 0\<rparr>"

definition one_pipe :: "byte list \<Rightarrow> world" where
  "one_pipe bs =
     \<lparr>isatty1 = False,
      files = (\<lambda>name. None),
      stdin_src = pipe_src bs,
      calloc_ok = (\<lambda>n. True),
      wr_script = []\<rparr>"

subsection \<open>What a run shows\<close>

text \<open>The log of the writes made, whatever the outcome.\<close>

fun writes_of :: "('s vars \<times> summary option) res \<Rightarrow> write_log" where
  "writes_of (Finished (v, r)) = wlog v"
| "writes_of (Exits c l) = l"
| "writes_of (Running l) = l"
| "writes_of (Overrun l) = l"

text \<open>
  The outcome without the log: for a run that returned, both totals, the checksum of
  the session and the summary printed.
\<close>

fun totals ::
  "'s slz_api \<Rightarrow> ('s vars \<times> summary option) res \<Rightarrow> (int \<times> int \<times> 32 word \<times> summary option) res"
where
  "totals E (Finished (v, r)) = Finished (totin v, totout v, crc32 E (strm v), r)"
| "totals E (Exits c l) = Exits c []"
| "totals E (Running l) = Running []"
| "totals E (Overrun l) = Overrun []"

text \<open>
  Two states that differ at most in \<open>test\<close>, \<open>error\<close>, the write script and the log.
\<close>

definition same_but_sink :: "'s vars \<Rightarrow> 's vars \<Rightarrow> bool" where
  "same_but_sink v v' \<longleftrightarrow>
     strm v = strm v' \<and> fd v = fd v' \<and> toread v = toread v' \<and> outbuf v = outbuf v' \<and>
     totin v = totin v' \<and> totout v = totout v' \<and> loops v = loops v' \<and>
     console v = console v' \<and> level v = level v' \<and> verbose v = verbose v' \<and>
     format v = format v' \<and> force v = force v'"

text \<open>Two outcomes of the same kind, with related results when both returned.\<close>

fun res_rel :: "('a \<Rightarrow> 'b \<Rightarrow> bool) \<Rightarrow> 'a res \<Rightarrow> 'b res \<Rightarrow> bool" where
  "res_rel R (Finished a) (Finished b) = R a b"
| "res_rel R (Exits c l) (Exits c' l') = (c = c')"
| "res_rel R (Running l) (Running l') = True"
| "res_rel R (Overrun l) (Overrun l') = True"
| "res_rel R _ _ = False"

text \<open>
  A property of the state of a run that returned, and one of the log of a run that did
  not.
\<close>

fun res_all :: "('a \<Rightarrow> bool) \<Rightarrow> (write_log \<Rightarrow> bool) \<Rightarrow> 'a res \<Rightarrow> bool" where
  "res_all P Q (Finished a) = P a"
| "res_all P Q (Exits c l) = Q l"
| "res_all P Q (Running l) = Q l"
| "res_all P Q (Overrun l) = Q l"

text \<open>
  Two states that differ at most in \<open>toread\<close>, and there only when both are negative.
\<close>

definition same_cap :: "'s vars \<Rightarrow> 's vars \<Rightarrow> bool" where
  "same_cap v v' \<longleftrightarrow>
     v'\<lparr>toread := toread v\<rparr> = v \<and> (toread v' = toread v \<or> toread v < 0 \<and> toread v' < 0)"

text \<open>
  The error flag and the log agree: the flag is clear and no logged write failed, or it
  is 1 and the one failed write is the last of the log.
\<close>

definition log_ok :: "'s vars \<Rightarrow> bool" where
  "log_ok v \<longleftrightarrow>
     (if error v = 0 then list_all (\<lambda>e. 0 \<le> snd e) (wlog v)
      else error v = 1 \<and> wlog v \<noteq> [] \<and> snd (last (wlog v)) = - 1 \<and>
           list_all (\<lambda>e. 0 \<le> snd e) (butlast (wlog v)))"

text \<open>The same for a log alone: no write failed, or one did and it is the last.\<close>

definition log_shape :: "write_log \<Rightarrow> bool" where
  "log_shape l \<longleftrightarrow>
     list_all (\<lambda>e. 0 \<le> snd e) l \<or>
     l \<noteq> [] \<and> snd (last l) = - 1 \<and> list_all (\<lambda>e. 0 \<le> snd e) (butlast l)"

text \<open>
  Two states with the same position in the run, no failed write behind them nor ahead
  in their scripts, and the same buffers handed to \<^verbatim>\<open>write\<close> so far.
\<close>

definition same_requests :: "'s vars \<Rightarrow> 's vars \<Rightarrow> bool" where
  "same_requests v v' \<longleftrightarrow>
     same_but_sink v v' \<and> test v = test v' \<and> error v = 0 \<and> error v' = 0 \<and>
     map fst (wlog v) = map fst (wlog v') \<and>
     WrFail \<notin> set (wr_plan v) \<and> WrFail \<notin> set (wr_plan v')"

text \<open>
  A run that did not write past the staging buffer, with a property of its state when it
  returned.
\<close>

fun safe :: "('a \<Rightarrow> bool) \<Rightarrow> 'a res \<Rightarrow> bool" where
  "safe P (Finished a) = P a"
| "safe P (Overrun l) = False"
| "safe P (Exits c l) = True"
| "safe P (Running l) = True"

text \<open>
  What holds of the state before every round of the inner loop: \<^verbatim>\<open>toread\<close> is not
  negative and one more block fits below \<^verbatim>\<open>outbsize\<close>.
\<close>

definition round_inv :: "nat \<Rightarrow> nat \<Rightarrow> 's vars \<Rightarrow> bool" where
  "round_inv block_size outbsize v \<longleftrightarrow>
     0 \<le> toread v \<and> length (outbuf v) + block_size \<le> outbsize"

section \<open>Properties\<close>

subsection \<open>Evaluation\<close>

text \<open>
  The recursion equations of the two loops at a numeral, so that the simplifier runs
  them without turning a numeral into a tower of \<open>Suc\<close>.
\<close>

lemma chunks_numeral:
  "chunks E b ob (numeral k) c m v =
     (case chunk_round E b ob c m v of
        Running l \<Rightarrow> Running l
      | Overrun l \<Rightarrow> Overrun l
      | Exits c l \<Rightarrow> Exits c l
      | Finished (count1, more1, v1) \<Rightarrow>
          if more1 \<noteq> 0 then chunks E b ob (pred_numeral k) count1 more1 v1
          else Finished v1)"
  by (simp add: numeral_eq_Suc)

lemma passes_numeral:
  "passes E b ob f (numeral k) v =
     (case one_pass E b ob f v of
        Running l \<Rightarrow> Running l
      | Overrun l \<Rightarrow> Overrun l
      | Exits c l \<Rightarrow> Exits c l
      | Finished v1 \<Rightarrow> passes E b ob f (pred_numeral k) v1)"
  by (simp add: numeral_eq_Suc)

lemmas eval_defs =
  zenc_main_def init_vars_def one_file_def file_src_def c_atoi_def is_level_opt_def
  level_of_opt_def run_def prepare_def open_input_def resolve_toread_def block_size_of_def
  outbsize_of_def outbuf_alloc_def pass_count_def stored_slz_def one_pass_def finish_pass_def
  chunk_round_def chunk_request_def sys_read_def flush_check_def emit_def sys_write_def
  report_def fdiv_def chunks_numeral passes_numeral

subsection \<open>Buffer sizing\<close>


subsection \<open>No pass at all\<close>

text \<open>
  C8. With \<^verbatim>\<open>-l 0\<close> no pass runs: nothing is read, encoded or written and both byte
  totals are 0. The checksum of the summary line is not a zero initial value: \<^verbatim>\<open>strm\<close>
  was never initialised, and the line prints the \<^verbatim>\<open>crc32\<close> field of whatever the stack
  held (with the ratio 0 * 100.0 / 0).
\<close>

theorem zero_passes_report_uninitialised_crc:
  "zenc_main c_atoi c_atoi E strm0 fuel [''-v'', ''-l'', ''0'', ''f''] (one_file False bs ws) =
     Finished
       (\<lparr>strm = strm0, fd = file_src bs, toread = int (length bs), outbuf = [], totin = 0,
         totout = 0, loops = 0, console = 1, level = 3, verbose = 1, test = 0,
         format = SLZ_FMT_GZIP, force = 0, error = 0, wr_plan = ws, wlog = []\<rparr>,
        Some \<lparr>s_totin = 0, s_totout = 0, s_ratio = NaN, s_crc32 = crc32 E strm0\<rparr>)"
  by (simp add: zenc_main_def init_vars_def one_file_def c_atoi_def is_level_opt_def
      run_def prepare_def open_input_def resolve_toread_def pass_count_def report_def fdiv_def
      file_src_def block_size_of_def outbsize_of_def outbuf_alloc_def)

subsection \<open>The option loop\<close>

text \<open>
  A relation between two states that every assignment of the option loop keeps is kept by
  the loop: it exits with the same code or leaves related states and the same arguments.
\<close>

lemma parse_args_rel:
  assumes upd:
    "\<And>v v' x. T v v' \<Longrightarrow> T (v\<lparr>level := x\<rparr>) (v'\<lparr>level := x\<rparr>)"
    "\<And>v v' x. T v v' \<Longrightarrow> T (v\<lparr>toread := x\<rparr>) (v'\<lparr>toread := x\<rparr>)"
    "\<And>v v' x. T v v' \<Longrightarrow> T (v\<lparr>console := x\<rparr>) (v'\<lparr>console := x\<rparr>)"
    "\<And>v v' x. T v v' \<Longrightarrow> T (v\<lparr>force := x\<rparr>) (v'\<lparr>force := x\<rparr>)"
    "\<And>v v' x. T v v' \<Longrightarrow> T (v\<lparr>loops := x\<rparr>) (v'\<lparr>loops := x\<rparr>)"
    "\<And>v v'. T v v' \<Longrightarrow> T (v\<lparr>test := 1\<rparr>) (v'\<lparr>test := 1\<rparr>)"
    "\<And>v v' y. T v v' \<Longrightarrow> T (v\<lparr>format := y\<rparr>) (v'\<lparr>format := y\<rparr>)"
    "\<And>v v'. T v v' \<Longrightarrow> T (v\<lparr>verbose := verbose v + 1\<rparr>) (v'\<lparr>verbose := verbose v' + 1\<rparr>)"
  shows "T v v' \<Longrightarrow>
     rel_sum (=) (rel_prod T (=)) (parse_args atoll atoi v as) (parse_args atoll atoi v' as)"
proof (induction atoll atoi v as arbitrary: v' rule: parse_args.induct)
  case (1 atoll atoi v)
  then show ?case by simp
next
  case (2 atoll atoi v a as)
  show ?case
    using "2.prems" "2.IH"
    by (simp add: upd split: list.split)
qed

lemma parse_args_test:
  "rel_sum (=) (rel_prod (\<lambda>u u'. u' = u\<lparr>test := 1\<rparr>) (=))
     (parse_args atoll atoi v as) (parse_args atoll atoi (v\<lparr>test := 1\<rparr>) as)"
  by (rule parse_args_rel) simp_all

lemma parse_args_wr_plan:
  "rel_sum (=) (rel_prod (\<lambda>u u'. u' = u\<lparr>wr_plan := p\<rparr>) (=))
     (parse_args atoll atoi v as) (parse_args atoll atoi (v\<lparr>wr_plan := p\<rparr>) as)"
  by (rule parse_args_rel) simp_all

lemma parse_args_keeps:
  assumes "parse_args atoll atoi v as = Inr (u, rest)"
  shows "strm u = strm v \<and> fd u = fd v \<and> outbuf u = outbuf v \<and> totin u = totin v \<and>
     totout u = totout v \<and> error u = error v \<and> wr_plan u = wr_plan v \<and> wlog u = wlog v"
proof -
  let ?K = "\<lambda>u (u'::'a vars). strm u = strm v \<and> fd u = fd v \<and> outbuf u = outbuf v \<and>
     totin u = totin v \<and> totout u = totout v \<and> error u = error v \<and> wr_plan u = wr_plan v \<and>
     wlog u = wlog v"
  have "rel_sum (=) (rel_prod ?K (=)) (parse_args atoll atoi v as) (parse_args atoll atoi v as)"
    by (rule parse_args_rel) simp_all
  with assms show ?thesis by simp
qed

lemma parse_args_t:
  "parse_args atoll atoi v (''-t'' # as) = parse_args atoll atoi (v\<lparr>test := 1\<rparr>) as"
  by (simp add: is_level_opt_def)

text \<open>A negative \<^verbatim>\<open>toread\<close> is as good as any other.\<close>

lemma same_cap_upd:
  "same_cap v v' \<Longrightarrow> same_cap (v\<lparr>level := x\<rparr>) (v'\<lparr>level := x\<rparr>)"
  "same_cap v v' \<Longrightarrow> same_cap (v\<lparr>console := x\<rparr>) (v'\<lparr>console := x\<rparr>)"
  "same_cap v v' \<Longrightarrow> same_cap (v\<lparr>force := x\<rparr>) (v'\<lparr>force := x\<rparr>)"
  "same_cap v v' \<Longrightarrow> same_cap (v\<lparr>loops := x\<rparr>) (v'\<lparr>loops := x\<rparr>)"
  "same_cap v v' \<Longrightarrow> same_cap (v\<lparr>test := x\<rparr>) (v'\<lparr>test := x\<rparr>)"
  "same_cap v v' \<Longrightarrow> same_cap (v\<lparr>format := y\<rparr>) (v'\<lparr>format := y\<rparr>)"
  "same_cap v v' \<Longrightarrow> same_cap (v\<lparr>verbose := verbose v + 1\<rparr>) (v'\<lparr>verbose := verbose v' + 1\<rparr>)"
  "same_cap v v' \<Longrightarrow> same_cap (v\<lparr>toread := t\<rparr>) (v'\<lparr>toread := t\<rparr>)"
  by (cases v; cases v'; simp add: same_cap_def)+

lemma parse_args_same_cap:
  "same_cap v v' \<Longrightarrow>
     rel_sum (=) (rel_prod same_cap (=)) (parse_args atoll atoi v as) (parse_args atoll atoi v' as)"
  by (rule parse_args_rel) (simp_all add: same_cap_upd)

lemma prepare_same_cap:
  assumes "same_cap v v'"
  shows "prepare w v rest = prepare w v' rest"
proof -
  from assms have v: "v = v'\<lparr>toread := toread v\<rparr>"
    by (simp add: same_cap_def)
  from assms have t: "toread v' = toread v \<or> toread v < 0 \<and> toread v' < 0"
    by (simp add: same_cap_def)
  have r: "resolve_toread (toread v) f = resolve_toread (toread v') f" for f
    using t by (auto simp: resolve_toread_def)
  have "fd v = fd v'"
    by (subst v) simp
  then have o: "open_input w v rest = open_input w v' rest"
    by (cases rest) (simp_all add: open_input_def)
  have f: "test v = test v'" "force v = force v'" "level v = level v'"
    by (subst v, simp)+
  have u: "v\<lparr>fd := g, toread := tr\<rparr> = v'\<lparr>fd := g, toread := tr\<rparr>" for g tr
    by (subst v) simp
  show ?thesis
    by (auto simp add: prepare_def r o f u Let_def split: option.split)
qed

lemma run_same_cap:
  assumes "same_cap v v'"
  shows "run E k w v rest = run E k w v' rest"
proof -
  from assms have v: "v = v'\<lparr>toread := toread v\<rparr>"
    by (simp add: same_cap_def)
  have "wlog v = wlog v'"
    by (subst v) simp
  then show ?thesis
    by (simp add: run_def prepare_same_cap [OF assms] split: sum.split)
qed

lemma parse_args_b:
  "parse_args atoll atoi v (''-b'' # x # as) = parse_args atoll atoi (v\<lparr>toread := atoll x\<rparr>) as"
  by (simp add: is_level_opt_def)

subsection \<open>Two runs side by side\<close>

lemma emit_fields [simp]:
  "strm (emit v) = strm v" "fd (emit v) = fd v" "toread (emit v) = toread v"
  "outbuf (emit v) = outbuf v" "totin (emit v) = totin v" "totout (emit v) = totout v"
  "loops (emit v) = loops v" "console (emit v) = console v" "level (emit v) = level v"
  "verbose (emit v) = verbose v" "format (emit v) = format v" "force (emit v) = force v"
  "test (emit v) = test v"
  by (simp_all add: emit_def split: prod.split)

text \<open>
  A relation between two states that every step of the two runs keeps is kept by the
  loops: both runs end the same way.
\<close>

lemma chunks_rel:
  assumes step: "\<And>c m v v'. R v v' \<Longrightarrow>
      res_rel (\<lambda>(c1, m1, u) (c1', m1', u'). c1 = c1' \<and> m1 = m1' \<and> R u u')
        (chunk_round E bs ob c m v) (chunk_round E bs ob c m v')"
  shows "R v v' \<Longrightarrow> res_rel R (chunks E bs ob k c m v) (chunks E bs ob k c m v')"
proof (induction k arbitrary: c m v v')
  case 0
  then show ?case by simp
next
  case (Suc k)
  from step [OF Suc.prems, of c m]
  show ?case
    by (cases "chunk_round E bs ob c m v"; cases "chunk_round E bs ob c m v'")
       (auto simp: Suc.IH)
qed

lemma passes_rel:
  assumes step: "\<And>c m v v'. R v v' \<Longrightarrow>
      res_rel (\<lambda>(c1, m1, u) (c1', m1', u'). c1 = c1' \<and> m1 = m1' \<and> R u u')
        (chunk_round E bs ob c m v) (chunk_round E bs ob c m v')"
    and init: "\<And>v v'. R v v' \<Longrightarrow>
      R (v\<lparr>strm := slz_init E (if level v \<noteq> 0 then 1 else 0) (format v), outbuf := []\<rparr>)
        (v'\<lparr>strm := slz_init E (if level v' \<noteq> 0 then 1 else 0) (format v'), outbuf := []\<rparr>)"
    and fin: "\<And>v v'. R v v' \<Longrightarrow> res_rel R (finish_pass E ob v) (finish_pass E ob v')"
  shows "R v v' \<Longrightarrow> res_rel R (passes E bs ob k n v) (passes E bs ob k n v')"
proof (induction n arbitrary: v v')
  case 0
  then show ?case by simp
next
  case (Suc n)
  let ?v0 = "v\<lparr>strm := slz_init E (if level v \<noteq> 0 then 1 else 0) (format v), outbuf := []\<rparr>"
  let ?v0' = "v'\<lparr>strm := slz_init E (if level v' \<noteq> 0 then 1 else 0) (format v'), outbuf := []\<rparr>"
  have c: "res_rel R (chunks E bs ob k bs 1 ?v0) (chunks E bs ob k bs 1 ?v0')"
  proof (rule chunks_rel [where R = R])
    show "\<And>c m v v'. R v v' \<Longrightarrow>
      res_rel (\<lambda>(c1, m1, u) (c1', m1', u'). c1 = c1' \<and> m1 = m1' \<and> R u u')
        (chunk_round E bs ob c m v) (chunk_round E bs ob c m v')"
      by (rule step)
    show "R ?v0 ?v0'"
      using Suc.prems by (rule init)
  qed
  have "res_rel R (one_pass E bs ob k v) (one_pass E bs ob k v')"
    using c unfolding one_pass_def Let_def
    by (cases "chunks E bs ob k bs 1 ?v0"; cases "chunks E bs ob k bs 1 ?v0'")
       (auto simp: fin)
  then show ?case
    by (cases "one_pass E bs ob k v"; cases "one_pass E bs ob k v'") (auto simp: Suc.IH)
qed

lemma prepare_sink:
  assumes "same_but_sink v v'"
      and "isatty1 w \<and> force v = 0 \<Longrightarrow> (test v = 0) = (test v' = 0)"
  shows "rel_sum (=) (\<lambda>u u'. \<exists>f t. u = v\<lparr>fd := f, toread := t\<rparr> \<and> u' = v'\<lparr>fd := f, toread := t\<rparr>)
           (prepare w v rest) (prepare w v' rest)"
proof -
  from assms(1) have eq: "fd v' = fd v" "force v' = force v" "level v' = level v"
    "toread v' = toread v"
    by (simp_all add: same_but_sink_def)
  have tty: "(isatty1 w \<and> test v' = 0 \<and> force v = 0) = (isatty1 w \<and> test v = 0 \<and> force v = 0)"
    using assms(2) by auto
  have src: "open_input w v' rest = open_input w v rest"
    by (cases rest) (simp_all add: eq open_input_def)
  show ?thesis
  proof (cases "open_input w v rest")
    case None
    then show ?thesis by (simp add: prepare_def src)
  next
    case (Some f)
    show ?thesis
    proof (cases "resolve_toread (toread v) f")
      case None
      with Some show ?thesis by (simp add: prepare_def src eq tty Let_def)
    next
      case (Some tr)
      with \<open>_ = Some f\<close> show ?thesis by (auto simp add: prepare_def src eq tty Let_def)
    qed
  qed
qed

lemma run_rel:
  assumes step: "\<And>bs ob c m v v'. R v v' \<Longrightarrow>
      res_rel (\<lambda>(c1, m1, u) (c1', m1', u'). c1 = c1' \<and> m1 = m1' \<and> R u u')
        (chunk_round E bs ob c m v) (chunk_round E bs ob c m v')"
    and init: "\<And>v v'. R v v' \<Longrightarrow>
      R (v\<lparr>strm := slz_init E (if level v \<noteq> 0 then 1 else 0) (format v), outbuf := []\<rparr>)
        (v'\<lparr>strm := slz_init E (if level v' \<noteq> 0 then 1 else 0) (format v'), outbuf := []\<rparr>)"
    and fin: "\<And>ob v v'. R v v' \<Longrightarrow> res_rel R (finish_pass E ob v) (finish_pass E ob v')"
    and prep: "\<And>f t. R (v\<lparr>fd := f, toread := t\<rparr>) (v'\<lparr>fd := f, toread := t\<rparr>)"
    and sub: "\<And>v v'. R v v' \<Longrightarrow> same_but_sink v v'"
    and v: "same_but_sink v v'"
    and tty: "isatty1 w \<and> force v = 0 \<Longrightarrow> (test v = 0) = (test v' = 0)"
  shows "res_rel (\<lambda>(u, r) (u', r'). R u u' \<and> r = r') (run E k w v rest) (run E k w v' rest)"
proof -
  have ps: "rel_sum (=) (\<lambda>u u'. \<exists>f t. u = v\<lparr>fd := f, toread := t\<rparr> \<and> u' = v'\<lparr>fd := f, toread := t\<rparr>)
              (prepare w v rest) (prepare w v' rest)"
    using v tty by (rule prepare_sink)
  show ?thesis
  proof (cases "prepare w v rest")
    case (Inl c)
    with ps show ?thesis
      by (cases "prepare w v' rest") (simp_all add: run_def)
  next
    case (Inr v0)
    with ps obtain v0' where p: "prepare w v' rest = Inr v0'" and r: "R v0 v0'"
      by (cases "prepare w v' rest") (auto simp: prep)
    from sub [OF r] have s: "same_but_sink v0 v0'" .
    then have l: "level v0' = level v0" "loops v0' = loops v0"
      by (simp_all add: same_but_sink_def)
    have rep: "report E u = report E u'" if "R u u'" for u u'
      using sub [OF that] by (simp add: same_but_sink_def report_def)
    let ?p = "passes E (block_size_of (level v0)) (outbsize_of (block_size_of (level v0))) k
                (pass_count (loops v0))"
    have "res_rel R (?p v0) (?p v0')"
    proof (rule passes_rel [where R = R])
      show "\<And>c m v v'. R v v' \<Longrightarrow>
        res_rel (\<lambda>(c1, m1, u) (c1', m1', u'). c1 = c1' \<and> m1 = m1' \<and> R u u')
          (chunk_round E (block_size_of (level v0)) (outbsize_of (block_size_of (level v0))) c m v)
          (chunk_round E (block_size_of (level v0)) (outbsize_of (block_size_of (level v0))) c m v')"
        by (rule step)
      show "\<And>v v'. R v v' \<Longrightarrow>
        R (v\<lparr>strm := slz_init E (if level v \<noteq> 0 then 1 else 0) (format v), outbuf := []\<rparr>)
          (v'\<lparr>strm := slz_init E (if level v' \<noteq> 0 then 1 else 0) (format v'), outbuf := []\<rparr>)"
        by (rule init)
      show "\<And>v v'. R v v' \<Longrightarrow>
        res_rel R (finish_pass E (outbsize_of (block_size_of (level v0))) v)
          (finish_pass E (outbsize_of (block_size_of (level v0))) v')"
        by (rule fin)
      show "R v0 v0'"
        by fact
    qed
    with Inr p l show ?thesis
      by (cases "?p v0"; cases "?p v0'") (auto simp: run_def Let_def rep)
  qed
qed

lemma totals_rel:
  assumes "res_rel (\<lambda>(u, r) (u', r'). same_but_sink u u' \<and> r = r') x y"
  shows "totals E x = totals E y"
  using assms by (cases x; cases y) (auto simp: same_but_sink_def)

subsection \<open>The totals do not depend on the sink\<close>

lemma same_but_sink_flush:
  "same_but_sink v v' \<Longrightarrow> same_but_sink (flush_check bs ob v) (flush_check bs ob v')"
  by (simp add: same_but_sink_def flush_check_def Let_def)

lemma chunk_round_sink:
  assumes "same_but_sink v v'"
  shows "res_rel (\<lambda>(c1, m1, u) (c1', m1', u'). c1 = c1' \<and> m1 = m1' \<and> same_but_sink u u')
           (chunk_round E bs ob c m v) (chunk_round E bs ob c m v')"
proof -
  from assms have eq: "toread v' = toread v" "fd v' = fd v" "strm v' = strm v"
    "outbuf v' = outbuf v" "totin v' = totin v"
    by (simp_all add: same_but_sink_def)
  have upd: "\<And>f t n s b. same_but_sink
       (v\<lparr>fd := f, toread := t, totin := n, strm := s, outbuf := b\<rparr>)
       (v'\<lparr>fd := f, toread := t, totin := n, strm := s, outbuf := b\<rparr>)"
    using assms by (simp add: same_but_sink_def)
  show ?thesis
    unfolding chunk_round_def
    by (simp add: eq Let_def same_but_sink_flush upd split: prod.split option.split)
qed

lemma finish_pass_sink:
  "same_but_sink v v' \<Longrightarrow>
     res_rel same_but_sink (finish_pass E ob v) (finish_pass E ob v')"
  by (simp add: finish_pass_def same_but_sink_def Let_def split: prod.split)

lemma run_sink:
  assumes "same_but_sink v v'"
      and "isatty1 w \<and> force v = 0 \<Longrightarrow> (test v = 0) = (test v' = 0)"
  shows "totals E (run E k w v rest) = totals E (run E k w v' rest)"
proof (rule totals_rel, rule run_rel [where R = same_but_sink])
  show "\<And>bs ob c m v v'. same_but_sink v v' \<Longrightarrow>
      res_rel (\<lambda>(c1, m1, u) (c1', m1', u'). c1 = c1' \<and> m1 = m1' \<and> same_but_sink u u')
        (chunk_round E bs ob c m v) (chunk_round E bs ob c m v')"
    by (rule chunk_round_sink)
  show "\<And>v v'. same_but_sink v v' \<Longrightarrow> same_but_sink
      (v\<lparr>strm := slz_init E (if level v \<noteq> 0 then 1 else 0) (format v), outbuf := []\<rparr>)
      (v'\<lparr>strm := slz_init E (if level v' \<noteq> 0 then 1 else 0) (format v'), outbuf := []\<rparr>)"
    by (simp add: same_but_sink_def)
  show "\<And>ob v v'. same_but_sink v v' \<Longrightarrow>
      res_rel same_but_sink (finish_pass E ob v) (finish_pass E ob v')"
    by (rule finish_pass_sink)
  show "\<And>f t. same_but_sink (v\<lparr>fd := f, toread := t\<rparr>) (v'\<lparr>fd := f, toread := t\<rparr>)"
    using assms(1) by (simp add: same_but_sink_def)
  show "\<And>v v'. same_but_sink v v' \<Longrightarrow> same_but_sink v v'" .
  show "same_but_sink v v'" by fact
  show "isatty1 w \<and> force v = 0 \<Longrightarrow> (test v = 0) = (test v' = 0)" by fact
qed

subsection \<open>Invariants of the loops\<close>

lemma chunks_inv:
  assumes step: "\<And>c m v. P v \<Longrightarrow>
      res_all (\<lambda>(c1, m1, u). P u) Q (chunk_round E bs ob c m v)"
    and log: "\<And>v. P v \<Longrightarrow> Q (wlog v)"
  shows "P v \<Longrightarrow> res_all P Q (chunks E bs ob k c m v)"
proof (induction k arbitrary: c m v)
  case 0
  then show ?case by (simp add: log)
next
  case (Suc k)
  from step [OF Suc.prems, of c m] show ?case
    by (cases "chunk_round E bs ob c m v") (auto simp: Suc.IH)
qed

lemma passes_inv:
  assumes step: "\<And>c m v. P v \<Longrightarrow>
      res_all (\<lambda>(c1, m1, u). P u) Q (chunk_round E bs ob c m v)"
    and log: "\<And>v. P v \<Longrightarrow> Q (wlog v)"
    and init: "\<And>v s. P v \<Longrightarrow> P (v\<lparr>strm := s, outbuf := []\<rparr>)"
    and fin: "\<And>v. P v \<Longrightarrow> res_all P Q (finish_pass E ob v)"
  shows "P v \<Longrightarrow> res_all P Q (passes E bs ob k n v)"
proof (induction n arbitrary: v)
  case 0
  then show ?case by simp
next
  case (Suc n)
  let ?v0 = "v\<lparr>strm := slz_init E (if level v \<noteq> 0 then 1 else 0) (format v), outbuf := []\<rparr>"
  have "P ?v0"
    using Suc.prems by (rule init)
  have c: "res_all P Q (chunks E bs ob k bs 1 ?v0)"
  proof (rule chunks_inv [where P = P and Q = Q])
    show "\<And>c m v. P v \<Longrightarrow> res_all (\<lambda>(c1, m1, u). P u) Q (chunk_round E bs ob c m v)"
      by (rule step)
    show "\<And>v. P v \<Longrightarrow> Q (wlog v)"
      by (rule log)
    show "P ?v0"
      by fact
  qed
  have "res_all P Q (one_pass E bs ob k v)"
    using c unfolding one_pass_def Let_def
    by (cases "chunks E bs ob k bs 1 ?v0") (simp_all add: fin)
  then show ?case
    by (cases "one_pass E bs ob k v") (simp_all add: Suc.IH)
qed

lemma run_inv:
  assumes step: "\<And>bs ob c m v. P v \<Longrightarrow>
      res_all (\<lambda>(c1, m1, u). P u) Q (chunk_round E bs ob c m v)"
    and log: "\<And>v. P v \<Longrightarrow> Q (wlog v)"
    and init: "\<And>v s. P v \<Longrightarrow> P (v\<lparr>strm := s, outbuf := []\<rparr>)"
    and fin: "\<And>ob v. P v \<Longrightarrow> res_all P Q (finish_pass E ob v)"
    and prep: "\<And>f t. P v \<Longrightarrow> P (v\<lparr>fd := f, toread := t\<rparr>)"
    and v: "P v"
  shows "res_all (\<lambda>(u, r). P u \<and> r = report E u) Q (run E k w v rest)"
proof (cases "prepare w v rest")
  case (Inl c)
  then show ?thesis by (simp add: run_def log [OF v])
next
  case (Inr v0)
  then obtain f t where "v0 = v\<lparr>fd := f, toread := t\<rparr>"
    by (auto simp: prepare_def Let_def split: option.splits if_splits)
  with prep [OF v] have "P v0" by simp
  have "res_all P Q (passes E bs ob k n v0)" for bs ob n
  proof (rule passes_inv [where P = P and Q = Q])
    show "\<And>c m v. P v \<Longrightarrow> res_all (\<lambda>(c1, m1, u). P u) Q (chunk_round E bs ob c m v)"
      by (rule step)
    show "\<And>v. P v \<Longrightarrow> Q (wlog v)"
      by (rule log)
    show "\<And>v s. P v \<Longrightarrow> P (v\<lparr>strm := s, outbuf := []\<rparr>)"
      by (rule init)
    show "\<And>v. P v \<Longrightarrow> res_all P Q (finish_pass E ob v)"
      by (rule fin)
    show "P v0"
      by fact
  qed
  from this [of "block_size_of (level v0)" "outbsize_of (block_size_of (level v0))"
      "pass_count (loops v0)"] Inr
  show ?thesis
    by (cases "passes E (block_size_of (level v0)) (outbsize_of (block_size_of (level v0))) k
                 (pass_count (loops v0)) v0")
       (simp_all add: run_def Let_def)
qed

subsection \<open>Test mode\<close>

lemma emit_test: "test v \<noteq> 0 \<Longrightarrow> emit v = v"
  by (simp add: emit_def)

lemma chunk_round_test:
  assumes "test v \<noteq> 0 \<and> wlog v = L"
  shows "res_all (\<lambda>(c1, m1, u). test u \<noteq> 0 \<and> wlog u = L) (\<lambda>l. l = L)
           (chunk_round E bs ob c m v)"
  using assms
  by (simp add: chunk_round_def flush_check_def emit_test Let_def split: prod.split option.split)

lemma finish_pass_test:
  assumes "test v \<noteq> 0 \<and> wlog v = L"
  shows "res_all (\<lambda>u. test u \<noteq> 0 \<and> wlog u = L) (\<lambda>l. l = L) (finish_pass E ob v)"
  using assms
  by (simp add: finish_pass_def emit_test Let_def split: prod.split)

lemma run_test:
  assumes "test v \<noteq> 0"
  shows "writes_of (run E k w v rest) = wlog v"
proof -
  have "res_all (\<lambda>(u, r). (test u \<noteq> 0 \<and> wlog u = wlog v) \<and> r = report E u) (\<lambda>l. l = wlog v)
          (run E k w v rest)"
  proof (rule run_inv [where P = "\<lambda>u. test u \<noteq> 0 \<and> wlog u = wlog v" and Q = "\<lambda>l. l = wlog v"])
    show "\<And>bs ob c m u. test u \<noteq> 0 \<and> wlog u = wlog v \<Longrightarrow>
        res_all (\<lambda>(c1, m1, u). test u \<noteq> 0 \<and> wlog u = wlog v) (\<lambda>l. l = wlog v)
          (chunk_round E bs ob c m u)"
      by (rule chunk_round_test)
    show "\<And>ob u. test u \<noteq> 0 \<and> wlog u = wlog v \<Longrightarrow>
        res_all (\<lambda>u. test u \<noteq> 0 \<and> wlog u = wlog v) (\<lambda>l. l = wlog v) (finish_pass E ob u)"
      by (rule finish_pass_test)
  qed (use assms in simp_all)
  then show ?thesis
    by (cases "run E k w v rest") auto
qed

text \<open>
  C5 (amended). Putting \<^verbatim>\<open>-t\<close> in front of a command line that the terminal check
  (line 195) does not refuse changes neither total, nor the checksum, nor the summary, nor
  how the run ends, and the run with \<^verbatim>\<open>-t\<close> never calls \<^verbatim>\<open>write\<close>.
\<close>

theorem test_mode_same_totals:
  assumes "\<And>v rest. parse_args atoll atoi (init_vars strm0 w) args = Inr (v, rest) \<Longrightarrow>
             \<not> (isatty1 w \<and> test v = 0 \<and> force v = 0)"
  shows "totals E (zenc_main atoll atoi E strm0 fuel (''-t'' # args) w) =
           totals E (zenc_main atoll atoi E strm0 fuel args w) \<and>
         writes_of (zenc_main atoll atoi E strm0 fuel (''-t'' # args) w) = []"
proof (cases "parse_args atoll atoi (init_vars strm0 w) args")
  case (Inl c)
  with parse_args_test [of atoll atoi "init_vars strm0 w" args]
  show ?thesis
    by (cases "parse_args atoll atoi (init_vars strm0 w\<lparr>test := 1\<rparr>) args")
       (simp_all add: zenc_main_def parse_args_t del: parse_args.simps)
next
  case (Inr p)
  obtain v rest where p: "p = (v, rest)"
    by (cases p)
  with Inr parse_args_test [of atoll atoi "init_vars strm0 w" args]
  have t: "parse_args atoll atoi (init_vars strm0 w\<lparr>test := 1\<rparr>) args = Inr (v\<lparr>test := 1\<rparr>, rest)"
    by (cases "parse_args atoll atoi (init_vars strm0 w\<lparr>test := 1\<rparr>) args") auto
  from Inr p have n: "\<not> (isatty1 w \<and> test v = 0 \<and> force v = 0)"
    by (simp add: assms)
  have "wlog v = []"
    using parse_args_keeps [of atoll atoi "init_vars strm0 w" args v rest] Inr p
    by (simp add: init_vars_def)
  then have w: "writes_of (run E fuel w (v\<lparr>test := 1\<rparr>) rest) = []"
    by (simp add: run_test)
  have "totals E (run E fuel w (v\<lparr>test := 1\<rparr>) rest) = totals E (run E fuel w v rest)"
    by (rule run_sink) (use n in \<open>auto simp: same_but_sink_def\<close>)
  with w Inr p t show ?thesis
    by (simp add: zenc_main_def parse_args_t del: parse_args.simps)
qed

theorem test_mode_same_totals_witness:
  "totals stored_slz
     (zenc_main c_atoi c_atoi stored_slz 0 2 [''-t'', ''-f'', ''f''] (one_file True [10, 20, 30] [])) =
   totals stored_slz
     (zenc_main c_atoi c_atoi stored_slz 0 2 [''-f'', ''f''] (one_file True [10, 20, 30] [])) \<and>
   writes_of
     (zenc_main c_atoi c_atoi stored_slz 0 2 [''-t'', ''-f'', ''f''] (one_file True [10, 20, 30] [])) = [] \<and>
   totals stored_slz
     (zenc_main c_atoi c_atoi stored_slz 0 2 [''-f'', ''f''] (one_file True [10, 20, 30] [])) =
   Finished (3, 5, 3, None)"
proof -
  have h: "\<And>v rest.
      parse_args c_atoi c_atoi (init_vars 0 (one_file True [10, 20, 30] [])) [''-f'', ''f''] = Inr (v, rest) \<Longrightarrow>
      \<not> (isatty1 (one_file True [10, 20, 30] []) \<and> test v = 0 \<and> force v = 0)"
    by (auto simp: init_vars_def is_level_opt_def)
  have e: "totals stored_slz
     (zenc_main c_atoi c_atoi stored_slz 0 2 [''-f'', ''f''] (one_file True [10, 20, 30] [])) =
     Finished (3, 5, 3, None)"
    by (simp add: eval_defs)
  from e test_mode_same_totals [where atoll = c_atoi and atoi = c_atoi and E = stored_slz
      and ?strm0.0 = 0 and fuel = 2 and args = "[''-f'', ''f'']"
      and w = "one_file True [10, 20, 30] []", OF h]
  show ?thesis by simp
qed

text \<open>
  C5 as stated fails where standard output is a terminal and \<^verbatim>\<open>-f\<close> is not given: the
  run with \<^verbatim>\<open>-t\<close> computes its totals, the run without is refused with status 1.
\<close>

theorem test_mode_terminal_counterexample:
  "totals stored_slz
     (zenc_main c_atoi c_atoi stored_slz 0 2 [''-t'', ''f''] (one_file True [10, 20, 30] [])) =
     Finished (3, 5, 3, None) \<and>
   totals stored_slz
     (zenc_main c_atoi c_atoi stored_slz 0 2 [''f''] (one_file True [10, 20, 30] [])) =
     Exits 1 [] \<and>
   totals stored_slz
     (zenc_main c_atoi c_atoi stored_slz 0 2 [''-t'', ''f''] (one_file True [10, 20, 30] [])) \<noteq>
   totals stored_slz
     (zenc_main c_atoi c_atoi stored_slz 0 2 [''f''] (one_file True [10, 20, 30] []))"
  by (simp add: eval_defs)

subsection \<open>The error flag and the log of writes\<close>

lemma sys_write_ret: "fst (sys_write p b) < 0 \<longleftrightarrow> fst (sys_write p b) = - 1"
  by (simp add: sys_write_def split: list.split wr_outcome.split)

lemma log_ok_cong: "error u = error v \<Longrightarrow> wlog u = wlog v \<Longrightarrow> log_ok u = log_ok v"
  by (simp add: log_ok_def)

lemma log_ok_emit: "log_ok v \<Longrightarrow> log_ok (emit v)"
proof -
  assume v: "log_ok v"
  show ?thesis
  proof (cases "console v \<noteq> 0 \<and> test v = 0 \<and> error v = 0")
    case False
    then have "emit v = v"
      by (auto simp: emit_def)
    with v show ?thesis by simp
  next
    case True
    obtain r p where w: "sys_write (wr_plan v) (outbuf v) = (r, p)"
      by (cases "sys_write (wr_plan v) (outbuf v)")
    with sys_write_ret [of "wr_plan v" "outbuf v"] have r: "r < 0 \<longleftrightarrow> r = - 1"
      by simp
    from True v have "list_all (\<lambda>e. 0 \<le> snd e) (wlog v)"
      by (simp add: log_ok_def)
    with True w r show ?thesis
      by (cases "r < 0") (simp_all add: emit_def log_ok_def)
  qed
qed

lemma log_ok_shape: "log_ok v \<Longrightarrow> log_shape (wlog v)"
  by (simp add: log_ok_def log_shape_def split: if_splits)

lemma chunk_round_log_ok:
  assumes "log_ok v"
  shows "res_all (\<lambda>(c1, m1, u). log_ok u) log_shape (chunk_round E bs ob c m v)"
proof -
  have a: "log_ok (v\<lparr>fd := f, toread := t, totin := n, strm := s, outbuf := b\<rparr>)" for f t n s b
    using assms by (simp add: log_ok_def)
  have b: "log_ok (flush_check bs ob u)" if "log_ok u" for u
  proof -
    have "log_ok (emit u\<lparr>totout := n, outbuf := []\<rparr>) = log_ok (emit u)" for n
      by (rule log_ok_cong) simp_all
    with that log_ok_emit [OF that] show ?thesis
      by (simp add: flush_check_def Let_def)
  qed
  have c: "log_shape (wlog v)"
    using assms by (rule log_ok_shape)
  show ?thesis
    by (simp add: chunk_round_def Let_def a b c split: prod.split option.split)
qed

lemma finish_pass_log_ok:
  assumes "log_ok v"
  shows "res_all log_ok log_shape (finish_pass E ob v)"
proof -
  have a: "log_ok (v\<lparr>strm := s, outbuf := b, totout := n\<rparr>)" for s b n
    using assms by (simp add: log_ok_def)
  have c: "log_shape (wlog v)"
    using assms by (rule log_ok_shape)
  show ?thesis
    by (simp add: finish_pass_def Let_def log_ok_emit [OF a] c split: prod.split)
qed

lemma run_log_ok:
  assumes "log_ok v"
  shows "res_all (\<lambda>(u, r). log_ok u \<and> r = report E u) log_shape (run E k w v rest)"
proof (rule run_inv [where P = log_ok and Q = log_shape])
  show "\<And>bs ob c m v. log_ok v \<Longrightarrow>
      res_all (\<lambda>(c1, m1, u). log_ok u) log_shape (chunk_round E bs ob c m v)"
    by (rule chunk_round_log_ok)
  show "\<And>ob v. log_ok v \<Longrightarrow> res_all log_ok log_shape (finish_pass E ob v)"
    by (rule finish_pass_log_ok)
  show "\<And>v. log_ok v \<Longrightarrow> log_shape (wlog v)"
    by (rule log_ok_shape)
qed (use assms in \<open>simp_all add: log_ok_def\<close>)

lemma zenc_main_log_ok:
  "res_all (\<lambda>(u, r). log_ok u \<and> r = report E u) log_shape
     (zenc_main atoll atoi E strm0 fuel args w)"
proof (cases "parse_args atoll atoi (init_vars strm0 w) args")
  case (Inl c)
  then show ?thesis by (simp add: zenc_main_def log_shape_def)
next
  case (Inr p)
  obtain v rest where p: "p = (v, rest)"
    by (cases p)
  from parse_args_keeps [of atoll atoi "init_vars strm0 w" args v rest] Inr p
  have "log_ok v"
    by (simp add: init_vars_def log_ok_def)
  with Inr p show ?thesis
    by (simp add: zenc_main_def run_log_ok)
qed

lemma log_shape_failed:
  assumes "log_shape l" and "\<exists>e\<in>set l. snd e < 0"
  shows "\<exists>pre d. l = pre @ [(d, - 1)] \<and> (\<forall>e\<in>set pre. 0 \<le> snd e)"
proof -
  from assms have n: "l \<noteq> []" and s: "snd (last l) = - 1"
    and b: "list_all (\<lambda>e. 0 \<le> snd e) (butlast l)"
    by (auto simp: log_shape_def list_all_iff)
  from n have "l = butlast l @ [last l]"
    by simp
  with s have "l = butlast l @ [(fst (last l), - 1)]"
    by (metis prod.collapse)
  with b show ?thesis
    by (auto simp: list_all_iff)
qed

subsection \<open>How a run can exit\<close>

lemma chunks_exit: "chunks E bs ob k c m v = Exits x l \<Longrightarrow> x = 2"
proof (induction k arbitrary: c m v)
  case 0
  then show ?case by simp
next
  case (Suc k)
  then show ?case
    by (cases "chunk_round E bs ob c m v")
       (auto simp: chunk_round_def Let_def split: prod.splits option.splits if_splits)
qed

lemma passes_exit: "passes E bs ob k n v = Exits x l \<Longrightarrow> x = 2"
proof (induction n arbitrary: v)
  case 0
  then show ?case by simp
next
  case (Suc n)
  let ?v0 = "v\<lparr>strm := slz_init E (if level v \<noteq> 0 then 1 else 0) (format v), outbuf := []\<rparr>"
  show ?case
  proof (cases "one_pass E bs ob k v")
    case (Finished u)
    with Suc show ?thesis by simp
  next
    case (Exits y l')
    then have "y = 2"
      by (cases "chunks E bs ob k bs 1 ?v0")
         (auto simp: one_pass_def Let_def finish_pass_def dest: chunks_exit
               split: prod.splits if_splits)
    with Exits Suc.prems show ?thesis by simp
  qed (use Suc.prems in simp_all)
qed

lemma zenc_main_exit:
  assumes "zenc_main atoll atoi E strm0 fuel args w = Exits x l"
  shows "x = 2 \<or> l = []"
proof (cases "parse_args atoll atoi (init_vars strm0 w) args")
  case (Inl c)
  with assms show ?thesis by (simp add: zenc_main_def)
next
  case (Inr p)
  obtain v rest where p: "p = (v, rest)"
    by (cases p)
  from parse_args_keeps [of atoll atoi "init_vars strm0 w" args v rest] Inr p
  have l: "wlog v = []"
    by (simp add: init_vars_def)
  from assms Inr p have r: "run E fuel w v rest = Exits x l"
    by (simp add: zenc_main_def)
  show ?thesis
  proof (cases "prepare w v rest")
    case (Inl c)
    with r l show ?thesis by (simp add: run_def)
  next
    case (Inr v0)
    with r show ?thesis
      by (auto simp: run_def Let_def dest: passes_exit split: res.splits)
  qed
qed

subsection \<open>Failed and partial writes\<close>

lemma open_input_wr_script: "open_input (w\<lparr>wr_script := ws\<rparr>) v rest = open_input w v rest"
  by (cases rest) (simp_all add: open_input_def)

lemma prepare_wr_script: "prepare (w\<lparr>wr_script := ws\<rparr>) v rest = prepare w v rest"
  by (auto simp add: prepare_def open_input_wr_script Let_def split: option.split)

lemma run_wr_script: "run E k (w\<lparr>wr_script := ws\<rparr>) v rest = run E k w v rest"
  by (simp add: run_def prepare_wr_script)

lemma totals_wr_script:
  "totals E (zenc_main atoll atoi E strm0 fuel args (w\<lparr>wr_script := ws\<rparr>)) =
   totals E (zenc_main atoll atoi E strm0 fuel args w)"
proof -
  let ?v = "init_vars strm0 w"
  have i: "init_vars strm0 (w\<lparr>wr_script := ws\<rparr>) = ?v\<lparr>wr_plan := ws\<rparr>"
    by (simp add: init_vars_def)
  show ?thesis
  proof (cases "parse_args atoll atoi ?v args")
    case (Inl c)
    with parse_args_wr_plan [of ws atoll atoi ?v args] show ?thesis
      by (cases "parse_args atoll atoi (?v\<lparr>wr_plan := ws\<rparr>) args")
         (simp_all add: zenc_main_def i)
  next
    case (Inr p)
    obtain v rest where p: "p = (v, rest)"
      by (cases p)
    with Inr parse_args_wr_plan [of ws atoll atoi ?v args]
    have t: "parse_args atoll atoi (?v\<lparr>wr_plan := ws\<rparr>) args = Inr (v\<lparr>wr_plan := ws\<rparr>, rest)"
      by (cases "parse_args atoll atoi (?v\<lparr>wr_plan := ws\<rparr>) args") auto
    have "totals E (run E fuel w (v\<lparr>wr_plan := ws\<rparr>) rest) = totals E (run E fuel w v rest)"
      by (rule run_sink [symmetric]) (simp_all add: same_but_sink_def)
    with Inr p t show ?thesis
      by (simp add: zenc_main_def i run_wr_script)
  qed
qed

text \<open>
  C4. When a write fails, that write is the only failed one and the last write of the
  run (the flag it sets is never cleared, and no later flush calls \<^verbatim>\<open>write\<close>); the run
  goes on and ends as it would whatever the writes returned, with the same totals,
  checksum and summary; and its exit status is not 0: a run that returns, returns 1.
\<close>

theorem write_failure_is_sticky:
  assumes "\<exists>e\<in>set (writes_of (zenc_main atoll atoi E strm0 fuel args w)). snd e < 0"
  shows "(\<exists>pre d. writes_of (zenc_main atoll atoi E strm0 fuel args w) = pre @ [(d, - 1)] \<and>
            (\<forall>e\<in>set pre. 0 \<le> snd e)) \<and>
         exit_status (zenc_main atoll atoi E strm0 fuel args w) \<noteq> Some 0 \<and>
         (\<forall>v r. zenc_main atoll atoi E strm0 fuel args w = Finished (v, r) \<longrightarrow> error v = 1) \<and>
         totals E (zenc_main atoll atoi E strm0 fuel args (w\<lparr>wr_script := ws\<rparr>)) =
           totals E (zenc_main atoll atoi E strm0 fuel args w)"
proof -
  let ?x = "zenc_main atoll atoi E strm0 fuel args w"
  have inv: "res_all (\<lambda>(u, r). log_ok u \<and> r = report E u) log_shape ?x"
    by (rule zenc_main_log_ok)
  then have "log_shape (writes_of ?x)"
    by (cases ?x) (auto dest: log_ok_shape)
  from log_shape_failed [OF this assms]
  have a: "\<exists>pre d. writes_of ?x = pre @ [(d, - 1)] \<and> (\<forall>e\<in>set pre. 0 \<le> snd e)" .
  have b: "error v = 1" if "?x = Finished (v, r)" for v r
  proof -
    from inv that have "log_ok v" by simp
    moreover from assms that have "\<exists>e\<in>set (wlog v). snd e < 0" by simp
    ultimately show ?thesis
      by (auto simp: log_ok_def list_all_iff split: if_splits)
  qed
  have c: "exit_status ?x \<noteq> Some 0"
  proof (cases ?x)
    case (Exits y l)
    with assms have "l \<noteq> []" by auto
    with zenc_main_exit [OF Exits] Exits show ?thesis by simp
  next
    case (Finished q)
    then show ?thesis using b by (cases q) simp
  qed simp_all
  from a b c show ?thesis
    by (simp add: totals_wr_script)
qed

theorem write_failure_is_sticky_witness:
  "writes_of (zenc_main c_atoi c_atoi stored_slz 0 2 [''-l'', ''3'', ''f'']
      (one_file False [10, 20, 30] [WrShort 2, WrFail])) =
     [([1, 10, 20, 30, 255], 2), ([1, 255], - 1)] \<and>
   exit_status (zenc_main c_atoi c_atoi stored_slz 0 2 [''-l'', ''3'', ''f'']
      (one_file False [10, 20, 30] [WrShort 2, WrFail])) = Some 1 \<and>
   totals stored_slz (zenc_main c_atoi c_atoi stored_slz 0 2 [''-l'', ''3'', ''f'']
      (one_file False [10, 20, 30] [WrShort 2, WrFail])) = Finished (3, 9, 0, None) \<and>
   totals stored_slz (zenc_main c_atoi c_atoi stored_slz 0 2 [''-l'', ''3'', ''f'']
      (one_file False [10, 20, 30] [])) = Finished (3, 9, 0, None)"
proof -
  let ?w = "one_file False [10, 20, 30] [WrShort 2, WrFail]"
  let ?x = "zenc_main c_atoi c_atoi stored_slz 0 2 [''-l'', ''3'', ''f''] ?w"
  have e: "?x = Finished
     (\<lparr>strm = 0, fd = \<lparr>data = [], rd_plan = [], st_size = Some 3\<rparr>, toread = 0,
       outbuf = [1, 255], totin = 3, totout = 9, loops = 3, console = 1, level = 3,
       verbose = 0, test = 0, format = SLZ_FMT_GZIP, force = 0, error = 1, wr_plan = [],
       wlog = [([1, 10, 20, 30, 255], 2), ([1, 255], - 1)]\<rparr>, None)"
    by (simp add: eval_defs)
  have h: "\<exists>e\<in>set (writes_of ?x). snd e < 0"
    by (simp add: e)
  have w: "?w\<lparr>wr_script := []\<rparr> = one_file False [10, 20, 30] []"
    by (simp add: one_file_def)
  have c: "crc32 stored_slz 0 = 0"
    by (simp add: stored_slz_def)
  from write_failure_is_sticky [OF h, of "[]"] show ?thesis
    by (simp add: e w c)
qed

subsection \<open>Partial writes\<close>

lemma sys_write_no_fail:
  "WrFail \<notin> set p \<Longrightarrow> 0 \<le> fst (sys_write p b) \<and> WrFail \<notin> set (snd (sys_write p b))"
  by (auto simp: sys_write_def split: list.split wr_outcome.split)

lemma same_requests_emit:
  assumes "same_requests v v'"
  shows "same_requests (emit v) (emit v')"
proof -
  from assms have s: "same_but_sink v v'" and t: "test v' = test v" and e: "error v = 0" "error v' = 0"
    and l: "map fst (wlog v) = map fst (wlog v')"
    and p: "WrFail \<notin> set (wr_plan v)" "WrFail \<notin> set (wr_plan v')"
    by (simp_all add: same_requests_def)
  from s have c: "console v' = console v" and o: "outbuf v' = outbuf v"
    by (simp_all add: same_but_sink_def)
  show ?thesis
  proof (cases "console v \<noteq> 0 \<and> test v = 0")
    case False
    then have "emit v = v" "emit v' = v'"
      by (auto simp: emit_def c t)
    with assms show ?thesis by simp
  next
    case True
    obtain r q where w: "sys_write (wr_plan v) (outbuf v) = (r, q)"
      by (cases "sys_write (wr_plan v) (outbuf v)")
    obtain r' q' where w': "sys_write (wr_plan v') (outbuf v) = (r', q')"
      by (cases "sys_write (wr_plan v') (outbuf v)")
    from sys_write_no_fail [OF p(1), of "outbuf v"] w have r: "0 \<le> r" "WrFail \<notin> set q"
      by simp_all
    from sys_write_no_fail [OF p(2), of "outbuf v"] w' have r': "0 \<le> r'" "WrFail \<notin> set q'"
      by simp_all
    from True e w w' r r' l s show ?thesis
      by (simp add: emit_def c t o same_requests_def same_but_sink_def)
  qed
qed

lemma same_requests_cong:
  assumes "same_requests v v'" and "same_but_sink u u'"
    and "test u = test v" "test u' = test v'" "error u = error v" "error u' = error v'"
    and "wlog u = wlog v" "wlog u' = wlog v'" "wr_plan u = wr_plan v" "wr_plan u' = wr_plan v'"
  shows "same_requests u u'"
  using assms by (simp add: same_requests_def)

lemma same_requests_flush:
  assumes "same_requests v v'"
  shows "same_requests (flush_check bs ob v) (flush_check bs ob v')"
proof -
  from assms have s: "same_but_sink v v'"
    by (simp add: same_requests_def)
  then have o: "outbuf v' = outbuf v"
    by (simp add: same_but_sink_def)
  have "same_requests (emit v\<lparr>totout := totout (emit v) + int (length (outbuf (emit v))), outbuf := []\<rparr>)
          (emit v'\<lparr>totout := totout (emit v') + int (length (outbuf (emit v'))), outbuf := []\<rparr>)"
    by (rule same_requests_cong [OF same_requests_emit [OF assms]])
       (use s in \<open>simp_all add: same_but_sink_def\<close>)
  with assms show ?thesis
    by (simp add: flush_check_def Let_def o)
qed

lemma chunk_round_requests:
  assumes "same_requests v v'"
  shows "res_rel (\<lambda>(c1, m1, u) (c1', m1', u'). c1 = c1' \<and> m1 = m1' \<and> same_requests u u')
           (chunk_round E bs ob c m v) (chunk_round E bs ob c m v')"
proof -
  from assms have s: "same_but_sink v v'"
    by (simp add: same_requests_def)
  then have eq: "toread v' = toread v" "fd v' = fd v" "strm v' = strm v"
    "outbuf v' = outbuf v" "totin v' = totin v"
    by (simp_all add: same_but_sink_def)
  have upd: "same_requests
       (v\<lparr>fd := f, toread := t, totin := n, strm := s, outbuf := b\<rparr>)
       (v'\<lparr>fd := f, toread := t, totin := n, strm := s, outbuf := b\<rparr>)" for f t n s b
    by (rule same_requests_cong [OF assms]) (use s in \<open>simp_all add: same_but_sink_def\<close>)
  show ?thesis
    unfolding chunk_round_def
    by (simp add: eq Let_def same_requests_flush upd split: prod.split option.split)
qed

lemma finish_pass_requests:
  assumes "same_requests v v'"
  shows "res_rel same_requests (finish_pass E ob v) (finish_pass E ob v')"
proof -
  from assms have s: "same_but_sink v v'"
    by (simp add: same_requests_def)
  then have eq: "strm v' = strm v" "outbuf v' = outbuf v" "totout v' = totout v"
    by (simp_all add: same_but_sink_def)
  have upd: "same_requests (v\<lparr>strm := s, outbuf := b, totout := n\<rparr>)
       (v'\<lparr>strm := s, outbuf := b, totout := n\<rparr>)" for s b n
    by (rule same_requests_cong [OF assms]) (use s in \<open>simp_all add: same_but_sink_def\<close>)
  show ?thesis
    by (simp add: finish_pass_def Let_def eq same_requests_emit [OF upd] split: prod.split)
qed

lemma run_requests:
  assumes "same_requests v v'"
  shows "res_rel (\<lambda>(u, r) (u', r'). same_requests u u' \<and> r = r')
           (run E k w v rest) (run E k w v' rest)"
proof (rule run_rel [where R = same_requests])
  show "\<And>bs ob c m v v'. same_requests v v' \<Longrightarrow>
      res_rel (\<lambda>(c1, m1, u) (c1', m1', u'). c1 = c1' \<and> m1 = m1' \<and> same_requests u u')
        (chunk_round E bs ob c m v) (chunk_round E bs ob c m v')"
    by (rule chunk_round_requests)
  show "\<And>v v'. same_requests v v' \<Longrightarrow> same_requests
      (v\<lparr>strm := slz_init E (if level v \<noteq> 0 then 1 else 0) (format v), outbuf := []\<rparr>)
      (v'\<lparr>strm := slz_init E (if level v' \<noteq> 0 then 1 else 0) (format v'), outbuf := []\<rparr>)"
  proof -
    fix v v' :: "'a vars"
    assume a: "same_requests v v'"
    then have s: "same_but_sink v v'"
      by (simp add: same_requests_def)
    show "same_requests
      (v\<lparr>strm := slz_init E (if level v \<noteq> 0 then 1 else 0) (format v), outbuf := []\<rparr>)
      (v'\<lparr>strm := slz_init E (if level v' \<noteq> 0 then 1 else 0) (format v'), outbuf := []\<rparr>)"
      by (rule same_requests_cong [OF a]) (use s in \<open>simp_all add: same_but_sink_def\<close>)
  qed
  show "\<And>ob v v'. same_requests v v' \<Longrightarrow>
      res_rel same_requests (finish_pass E ob v) (finish_pass E ob v')"
    by (rule finish_pass_requests)
  show "\<And>f t. same_requests (v\<lparr>fd := f, toread := t\<rparr>) (v'\<lparr>fd := f, toread := t\<rparr>)"
    by (rule same_requests_cong [OF assms])
       (use assms in \<open>simp_all add: same_requests_def same_but_sink_def\<close>)
  show "\<And>v v'. same_requests v v' \<Longrightarrow> same_but_sink v v'"
    by (simp add: same_requests_def)
  show "same_but_sink v v'"
    using assms by (simp add: same_requests_def)
  show "isatty1 w \<and> force v = 0 \<Longrightarrow> (test v = 0) = (test v' = 0)"
    using assms by (simp add: same_requests_def)
qed

text \<open>
  C10. Only a negative return of \<^verbatim>\<open>write\<close> sets the error flag. When no write fails,
  however short the writes are, the flag stays clear and the run hands the same buffers
  to \<^verbatim>\<open>write\<close>, in the same order, as the run in which every write is complete, and
  ends with the same totals: nothing is written again or continued, and \<open>totout\<close>
  counts every buffer in full.
\<close>

theorem partial_write_is_success:
  assumes "zenc_main atoll atoi E strm0 fuel args w = Finished (v, r)"
  shows "(error v \<noteq> 0 \<longleftrightarrow> (\<exists>e\<in>set (wlog v). snd e < 0)) \<and>
         (WrFail \<notin> set (wr_script w) \<longrightarrow>
            error v = 0 \<and>
            (\<exists>v'. zenc_main atoll atoi E strm0 fuel args (w\<lparr>wr_script := []\<rparr>) = Finished (v', r) \<and>
                  error v' = 0 \<and> map fst (wlog v') = map fst (wlog v) \<and>
                  totout v' = totout v \<and> totin v' = totin v))"
proof -
  let ?i = "init_vars strm0 w"
  from zenc_main_log_ok [of E atoll atoi strm0 fuel args w] assms have "log_ok v"
    by simp
  then have a: "error v \<noteq> 0 \<longleftrightarrow> (\<exists>e\<in>set (wlog v). snd e < 0)"
    by (cases "wlog v" rule: rev_cases) (auto simp: log_ok_def list_all_iff split: if_splits)
  have b: "error v = 0 \<and>
      (\<exists>v'. zenc_main atoll atoi E strm0 fuel args (w\<lparr>wr_script := []\<rparr>) = Finished (v', r) \<and>
            error v' = 0 \<and> map fst (wlog v') = map fst (wlog v) \<and>
            totout v' = totout v \<and> totin v' = totin v)"
    if nf: "WrFail \<notin> set (wr_script w)"
  proof -
    from assms obtain u rest where p: "parse_args atoll atoi ?i args = Inr (u, rest)"
      and f: "run E fuel w u rest = Finished (v, r)"
      by (cases "parse_args atoll atoi ?i args") (auto simp: zenc_main_def)
    from parse_args_keeps [OF p]
    have k: "error u = 0" "wr_plan u = wr_script w" "wlog u = []"
      by (simp_all add: init_vars_def)
    have i: "init_vars strm0 (w\<lparr>wr_script := []\<rparr>) = ?i\<lparr>wr_plan := []\<rparr>"
      by (simp add: init_vars_def)
    from p parse_args_wr_plan [of "[]" atoll atoi ?i args]
    have t: "parse_args atoll atoi (?i\<lparr>wr_plan := []\<rparr>) args = Inr (u\<lparr>wr_plan := []\<rparr>, rest)"
      by (cases "parse_args atoll atoi (?i\<lparr>wr_plan := []\<rparr>) args") auto
    have "same_requests u (u\<lparr>wr_plan := []\<rparr>)"
      using k nf by (simp add: same_requests_def same_but_sink_def)
    from run_requests [OF this, of E fuel w rest] f
    obtain v' where f': "run E fuel w (u\<lparr>wr_plan := []\<rparr>) rest = Finished (v', r)"
      and s: "same_requests v v'"
      by (cases "run E fuel w (u\<lparr>wr_plan := []\<rparr>) rest") auto
    from f' t have "zenc_main atoll atoi E strm0 fuel args (w\<lparr>wr_script := []\<rparr>) = Finished (v', r)"
      by (simp add: zenc_main_def i run_wr_script)
    with s show ?thesis
      by (simp add: same_requests_def same_but_sink_def)
  qed
  from a b show ?thesis
    by blast
qed

theorem partial_write_is_success_witness:
  "zenc_main c_atoi c_atoi stored_slz 0 2 [''f''] (one_file False [10, 20, 30] [WrShort 2]) =
     Finished
       (\<lparr>strm = 3, fd = \<lparr>data = [], rd_plan = [], st_size = Some 3\<rparr>, toread = 0,
         outbuf = [1, 10, 20, 30, 255], totin = 3, totout = 5, loops = 1, console = 1,
         level = 3, verbose = 0, test = 0, format = SLZ_FMT_GZIP, force = 0, error = 0,
         wr_plan = [], wlog = [([1, 10, 20, 30, 255], 2)]\<rparr>, None) \<and>
   (\<exists>v'. zenc_main c_atoi c_atoi stored_slz 0 2 [''f''] (one_file False [10, 20, 30] []) =
           Finished (v', None) \<and>
         error v' = 0 \<and> map fst (wlog v') = [[1, 10, 20, 30, 255]] \<and> totout v' = 5 \<and> totin v' = 3)"
proof -
  let ?w = "one_file False [10, 20, 30] [WrShort 2]"
  let ?v = "\<lparr>strm = 3, fd = \<lparr>data = [], rd_plan = [], st_size = Some 3\<rparr>, toread = 0,
         outbuf = [1, 10, 20, 30, 255], totin = 3, totout = 5, loops = 1, console = 1,
         level = 3, verbose = 0, test = 0, format = SLZ_FMT_GZIP, force = 0, error = 0,
         wr_plan = [], wlog = [([1, 10, 20, 30, 255], 2)]\<rparr> :: nat vars"
  have e: "zenc_main c_atoi c_atoi stored_slz 0 2 [''f''] ?w = Finished (?v, None)"
    by (simp add: eval_defs)
  have n: "WrFail \<notin> set (wr_script ?w)"
    by (simp add: one_file_def)
  have w: "?w\<lparr>wr_script := []\<rparr> = one_file False [10, 20, 30] []"
    by (simp add: one_file_def)
  from partial_write_is_success [OF e] n show ?thesis
    by (simp add: e w)
qed

subsection \<open>The staging buffer\<close>

lemma sys_read_length: "sys_read f n = Some (buf, g) \<Longrightarrow> length buf \<le> n"
  by (auto simp: sys_read_def split: list.splits rd_outcome.splits)

lemma chunk_request_bound:
  assumes "0 \<le> tr" and "bs < 2 ^ 32"
  shows "chunk_request bs tr bs 1 = (min (nat tr) bs, if tr < int bs then 0 else 1)"
  using assms by (auto simp: chunk_request_def)

lemma flush_check_room:
  "length (outbuf (flush_check bs (outbsize_of bs) v)) + bs \<le> outbsize_of bs"
  by (simp add: flush_check_def Let_def outbsize_of_def)

lemma flush_check_toread [simp]: "toread (flush_check bs ob v) = toread v"
  by (simp add: flush_check_def Let_def)

lemma chunk_round_safe:
  assumes enc: "enc_bounded E bs" and bs: "bs < 2 ^ 32"
    and inv: "round_inv bs (outbsize_of bs) v"
  shows "safe (\<lambda>(c1, m1, u). round_inv bs (outbsize_of bs) u \<and> (m1 \<noteq> 0 \<longrightarrow> c1 = bs \<and> m1 = 1))
           (chunk_round E bs (outbsize_of bs) bs 1 v)"
proof -
  let ?n = "min (nat (toread v)) bs"
  let ?m = "if toread v < int bs then 0 else 1 :: int"
  from inv have tr: "0 \<le> toread v" and ob: "length (outbuf v) \<le> bs"
    by (simp_all add: round_inv_def outbsize_of_def)
  have rq: "chunk_request bs (toread v) bs 1 = (?n, ?m)"
    using tr bs by (rule chunk_request_bound)
  show ?thesis
  proof (cases "sys_read (fd v) ?n")
    case None
    then show ?thesis
      by (simp add: chunk_round_def rq)
  next
    case (Some p)
    obtain buf f where p: "p = (buf, f)"
      by (cases p)
    from sys_read_length Some p have len: "length buf \<le> ?n"
      by blast
    then have l1: "length buf \<le> bs" and l2: "int (length buf) \<le> toread v"
      using tr by auto
    obtain enc st where e: "slz_encode E (strm v) buf ?m = (enc, st)"
      by (cases "slz_encode E (strm v) buf ?m")
    from enc l1 have "length (fst (slz_encode E (strm v) buf ?m)) \<le> bs + 4096"
      unfolding enc_bounded_def by blast
    with e have le: "length enc \<le> bs + 4096"
      by simp
    with ob have fit: "\<not> outbuf_alloc (outbsize_of bs) < length (outbuf v) + length enc"
      by (simp add: outbuf_alloc_def outbsize_of_def)
    have m: "?m \<noteq> 0 \<longrightarrow> ?n = bs \<and> ?m = 1"
      by auto
    from Some p e fit l2 m show ?thesis
      by (simp add: chunk_round_def rq Let_def round_inv_def flush_check_room del: min.absorb_iff1 min.absorb_iff2)
  qed
qed

lemma chunks_safe:
  assumes enc: "enc_bounded E bs" and bs: "bs < 2 ^ 32"
  shows "round_inv bs (outbsize_of bs) v \<Longrightarrow>
     safe (round_inv bs (outbsize_of bs)) (chunks E bs (outbsize_of bs) k bs 1 v)"
proof (induction k arbitrary: v)
  case 0
  then show ?case by simp
next
  case (Suc k)
  from chunk_round_safe [OF enc bs Suc.prems]
  show ?case
    by (cases "chunk_round E bs (outbsize_of bs) bs 1 v") (auto simp: Suc.IH)
qed

lemma finish_pass_safe:
  assumes enc: "enc_bounded E bs" and inv: "round_inv bs (outbsize_of bs) v"
  shows "safe (\<lambda>u. 0 \<le> toread u) (finish_pass E (outbsize_of bs) v)"
proof -
  obtain tr st where f: "slz_finish E (strm v) = (tr, st)"
    by (cases "slz_finish E (strm v)")
  from enc have "length (fst (slz_finish E (strm v))) \<le> bs + 4096"
    unfolding enc_bounded_def by blast
  with f have "length tr \<le> bs + 4096"
    by simp
  with inv f show ?thesis
    by (simp add: finish_pass_def Let_def round_inv_def outbuf_alloc_def outbsize_of_def)
qed

lemma one_pass_safe:
  assumes enc: "enc_bounded E bs" and bs: "bs < 2 ^ 32" and tr: "0 \<le> toread v"
  shows "safe (\<lambda>u. 0 \<le> toread u) (one_pass E bs (outbsize_of bs) k v)"
proof -
  let ?v0 = "v\<lparr>strm := slz_init E (if level v \<noteq> 0 then 1 else 0) (format v), outbuf := []\<rparr>"
  from tr have "round_inv bs (outbsize_of bs) ?v0"
    by (simp add: round_inv_def outbsize_of_def)
  from chunks_safe [OF enc bs this, of k] show ?thesis
    unfolding one_pass_def Let_def
    by (cases "chunks E bs (outbsize_of bs) k bs 1 ?v0") (simp_all add: finish_pass_safe [OF enc])
qed

lemma passes_safe:
  assumes enc: "enc_bounded E bs" and bs: "bs < 2 ^ 32"
  shows "0 \<le> toread v \<Longrightarrow> safe (\<lambda>u. 0 \<le> toread u) (passes E bs (outbsize_of bs) k n v)"
proof (induction n arbitrary: v)
  case 0
  then show ?case by simp
next
  case (Suc n)
  from one_pass_safe [OF enc bs Suc.prems, of k] show ?case
    by (cases "one_pass E bs (outbsize_of bs) k v") (simp_all add: Suc.IH)
qed

lemma block_size_of_small: "block_size_of lvl < 2 ^ 32"
  by (simp add: block_size_of_def)

lemma prepare_toread:
  assumes "prepare w v rest = Inr v0"
  shows "0 \<le> toread v0 \<and> level v0 = level v \<and> loops v0 = loops v"
  using assms
  by (auto simp: prepare_def Let_def resolve_toread_def split: option.splits if_splits)

lemma run_safe:
  assumes "enc_bounded E (block_size_of (level v))"
  shows "safe (\<lambda>q. True) (run E k w v rest)"
proof (cases "prepare w v rest")
  case (Inl c)
  then show ?thesis by (simp add: run_def)
next
  case (Inr v0)
  from prepare_toread [OF Inr] have t: "0 \<le> toread v0" and l: "level v0 = level v"
    by simp_all
  let ?bs = "block_size_of (level v)"
  from passes_safe [OF assms block_size_of_small t, of k "pass_count (loops v0)"] Inr l
  show ?thesis
    by (cases "passes E ?bs (outbsize_of ?bs) k (pass_count (loops v0)) v0")
       (simp_all add: run_def Let_def)
qed

lemma flush_check_flushes:
  assumes "outbsize < length (outbuf v) + block_size"
  shows "outbuf (flush_check block_size outbsize v) = [] \<and>
         totout (flush_check block_size outbsize v) = totout v + int (length (outbuf v)) \<and>
         wlog (flush_check block_size outbsize v) =
           (if console v \<noteq> 0 \<and> test v = 0 \<and> error v = 0
            then wlog v @ [(outbuf v, fst (sys_write (wr_plan v) (outbuf v)))]
            else wlog v)"
  using assms by (simp add: flush_check_def Let_def emit_def split: prod.split)

text \<open>
  C2. Provided the encoder keeps within the expansion the buffer is sized for (a chunk
  of at most one block, and the trailer, encode to at most one block plus 4096 bytes), no
  run, at any effort level, on any input, for any number of rounds, makes the encoder
  write past the allocation of the staging buffer. After a chunk, whenever the fill level
  plus one block exceeds \<^verbatim>\<open>outbsize\<close> (and so whenever it exceeds the allocation), the
  filled bytes are handed to the guarded write and counted, and the fill level is 0
  again; and after the flush test there is always room for one block plus 4096 bytes.
\<close>

theorem staging_buffer_never_overrun:
  assumes "\<And>lvl. enc_bounded E (block_size_of lvl)"
  shows "(\<forall>l. zenc_main atoll atoi E strm0 fuel args w \<noteq> Overrun l) \<and>
         (outbsize < length (outbuf v) + block_size \<longrightarrow>
            outbuf (flush_check block_size outbsize v) = [] \<and>
            totout (flush_check block_size outbsize v) = totout v + int (length (outbuf v)) \<and>
            wlog (flush_check block_size outbsize v) =
              (if console v \<noteq> 0 \<and> test v = 0 \<and> error v = 0
               then wlog v @ [(outbuf v, fst (sys_write (wr_plan v) (outbuf v)))]
               else wlog v)) \<and>
         length (outbuf (flush_check block_size (outbsize_of block_size) v)) + (block_size + 4096)
           \<le> outbuf_alloc (outbsize_of block_size)"
proof -
  have "safe (\<lambda>q. True) (zenc_main atoll atoi E strm0 fuel args w)"
  proof (cases "parse_args atoll atoi (init_vars strm0 w) args")
    case (Inl c)
    then show ?thesis by (simp add: zenc_main_def)
  next
    case (Inr p)
    then show ?thesis
      by (cases p) (simp add: zenc_main_def run_safe assms)
  qed
  then have a: "\<forall>l. zenc_main atoll atoi E strm0 fuel args w \<noteq> Overrun l"
    by auto
  have b: "length (outbuf (flush_check block_size (outbsize_of block_size) v)) + (block_size + 4096)
           \<le> outbuf_alloc (outbsize_of block_size)"
    using flush_check_room [of block_size v] by (simp add: outbuf_alloc_def)
  from a b flush_check_flushes [of outbsize v block_size] show ?thesis
    by blast
qed

lemma stored_slz_bounded: "enc_bounded stored_slz bs"
  by (simp add: enc_bounded_def stored_slz_def)

theorem staging_buffer_never_overrun_witness:
  "(\<forall>lvl. enc_bounded stored_slz (block_size_of lvl)) \<and>
   (\<forall>l. zenc_main c_atoi c_atoi stored_slz 0 5 [''-0'', ''-b'', ''70000'', ''f'']
          (one_file False (replicate 80000 7) []) \<noteq> Overrun l) \<and>
   writes_of (zenc_main c_atoi c_atoi stored_slz 0 5 [''-0'', ''-b'', ''70000'', ''f'']
          (one_file False (replicate 80000 7) [])) =
     [(0 # replicate 32768 7, 32769), (0 # replicate 32768 7, 32769),
      (1 # replicate 4464 7 @ [255], 4466)]"
proof -
  have h: "\<And>lvl. enc_bounded stored_slz (block_size_of lvl)"
    by (rule stored_slz_bounded)
  have e: "writes_of (zenc_main c_atoi c_atoi stored_slz 0 5 [''-0'', ''-b'', ''70000'', ''f'']
          (one_file False (replicate 80000 7) [])) =
     [(0 # replicate 32768 7, 32769), (0 # replicate 32768 7, 32769),
      (1 # replicate 4464 7 @ [255], 4466)]"
    by (simp add: eval_defs)
  from staging_buffer_never_overrun [where E = stored_slz and atoll = c_atoi and atoi = c_atoi
      and ?strm0.0 = 0 and fuel = 5 and args = "[''-0'', ''-b'', ''70000'', ''f'']"
      and w = "one_file False (replicate 80000 7) []", OF h] h e
  show ?thesis by blast
qed

subsection \<open>The final chunk\<close>

lemma flush_check_strm [simp]: "strm (flush_check bs ob v) = strm v"
  by (simp add: flush_check_def Let_def)

text \<open>
  C3 (amended). In a pass the length asked of \<^verbatim>\<open>read\<close> is the smaller of \<^verbatim>\<open>toread\<close> and
  the block size, and the flag \<^verbatim>\<open>more\<close> handed to the encoder is 0, marking the final
  chunk, exactly when \<^verbatim>\<open>toread\<close> is less than the block size; the loop ends with that
  chunk and goes on, with the same length and flag settings, after any other. When
  \<^verbatim>\<open>toread\<close> equals the block size the chunk is handed over with \<^verbatim>\<open>more\<close> set; if
  \<^verbatim>\<open>read\<close> returned at least one byte for it, the next request is for the bytes that
  remain (none after a full read) and carries the final flag.
\<close>

theorem final_flag_iff_less_than_block:
  assumes "0 \<le> toread v" and "block_size < 2 ^ 32"
  shows "chunk_request block_size (toread v) block_size 1 =
           (min (nat (toread v)) block_size, if toread v < int block_size then 0 else 1) \<and>
         (chunk_round E block_size outbsize block_size 1 v = Finished (count1, more1, u) \<longrightarrow>
            count1 = min (nat (toread v)) block_size \<and>
            (more1 = 0 \<longleftrightarrow> toread v < int block_size) \<and>
            (\<exists>buf f. sys_read (fd v) count1 = Some (buf, f) \<and>
                     strm u = snd (slz_encode E (strm v) buf more1) \<and>
                     toread u = toread v - int (length buf) \<and>
                     (toread v = int block_size \<and> buf \<noteq> [] \<longrightarrow>
                        more1 = 1 \<and>
                        chunk_request block_size (toread u) count1 more1 =
                          (block_size - length buf, 0))) \<and>
            chunks E block_size outbsize (Suc k) block_size 1 v =
              (if toread v < int block_size then Finished u
               else chunks E block_size outbsize k block_size 1 u))"
proof -
  let ?n = "min (nat (toread v)) block_size"
  let ?m = "if toread v < int block_size then 0 else 1 :: int"
  have rq: "chunk_request block_size (toread v) block_size 1 = (?n, ?m)"
    using assms by (rule chunk_request_bound)
  have "count1 = ?n \<and> (more1 = 0 \<longleftrightarrow> toread v < int block_size) \<and>
        (\<exists>buf f. sys_read (fd v) count1 = Some (buf, f) \<and>
                 strm u = snd (slz_encode E (strm v) buf more1) \<and>
                 toread u = toread v - int (length buf) \<and>
                 (toread v = int block_size \<and> buf \<noteq> [] \<longrightarrow>
                    more1 = 1 \<and>
                    chunk_request block_size (toread u) count1 more1 =
                      (block_size - length buf, 0))) \<and>
        chunks E block_size outbsize (Suc k) block_size 1 v =
          (if toread v < int block_size then Finished u
           else chunks E block_size outbsize k block_size 1 u)"
    if f: "chunk_round E block_size outbsize block_size 1 v = Finished (count1, more1, u)"
  proof -
    from f obtain buf g where rd: "sys_read (fd v) ?n = Some (buf, g)"
      by (cases "sys_read (fd v) ?n") (auto simp: chunk_round_def rq)
    obtain enc st where e: "slz_encode E (strm v) buf ?m = (enc, st)"
      by (cases "slz_encode E (strm v) buf ?m")
    from f rd e have c: "count1 = ?n" and m: "more1 = ?m" and s: "strm u = st"
      and t: "toread u = toread v - int (length buf)"
      by (auto simp: chunk_round_def rq Let_def split: if_splits)
    from c m have full: "more1 \<noteq> 0 \<Longrightarrow> count1 = block_size \<and> more1 = 1"
      by (auto split: if_splits)
    have nx: "more1 = 1 \<and>
        chunk_request block_size (toread u) count1 more1 = (block_size - length buf, 0)"
      if eq: "toread v = int block_size" and ne: "buf \<noteq> []"
    proof -
      from sys_read_length [OF rd] eq have le: "length buf \<le> block_size"
        by simp
      from ne have "0 < length buf"
        by simp
      with t eq le have lt: "toread u < int block_size" and ge: "0 \<le> toread u"
        and v: "nat (toread u) = block_size - length buf"
        by simp_all
      from assms(2) have md: "block_size mod 2 ^ 32 = block_size"
        by simp
      from ge lt assms(2) have "toread u < 2 ^ 64"
        by simp
      with ge have "toread u mod 2 ^ 64 = toread u"
        by simp
      with lt md v have "chunk_request block_size (toread u) count1 more1 =
          (block_size - length buf, 0)"
        by (simp add: chunk_request_def)
      with m eq show ?thesis
        by simp
    qed
    from c m s rd e f full t nx show ?thesis
      by (auto split: if_splits)
  qed
  with rq show ?thesis
    by blast
qed

theorem final_flag_iff_less_than_block_witness:
  "chunk_request 32768 10 32768 1 = (10, 0) \<and>
   chunk_request 32768 32769 32768 1 = (32768, 1) \<and>
   (\<exists>u. chunk_round stored_slz 32768 65536 32768 1
           (init_vars (0::nat) (one_file False [] [])
              \<lparr>fd := file_src (replicate 40000 7), toread := 32768\<rparr>) =
           Finished (32768, 1, u) \<and>
        toread u = 0 \<and> chunk_request 32768 (toread u) 32768 1 = (0, 0))"
proof -
  let ?v = "init_vars (0::nat) (one_file False [] [])
              \<lparr>fd := file_src (replicate 40000 7), toread := 32768\<rparr>"
  have a: "(0::int) \<le> toread (init_vars (0::nat) (one_file False [] [])\<lparr>toread := 10\<rparr>)"
    by simp
  have b: "(0::int) \<le> toread (init_vars (0::nat) (one_file False [] [])\<lparr>toread := 32769\<rparr>)"
    by simp
  have c: "(32768::nat) < 2 ^ 32"
    by simp
  have d: "(0::int) \<le> toread ?v"
    by simp
  obtain u where u: "chunk_round stored_slz 32768 65536 32768 1 ?v = Finished (32768, 1, u)"
    by (simp add: eval_defs)
  have r: "sys_read (fd ?v) 32768 =
      Some (replicate 32768 7, file_src (replicate 40000 7)\<lparr>data := replicate 7232 7\<rparr>)"
    by (simp add: sys_read_def file_src_def)
  from final_flag_iff_less_than_block [OF d c, where E = stored_slz and outbsize = 65536
      and ?count1.0 = 32768 and ?more1.0 = 1 and u = u and k = 0] u r
  have n: "toread u = 0 \<and> chunk_request 32768 (toread u) 32768 1 = (0, 0)"
    by auto
  from final_flag_iff_less_than_block [OF a c]
  have x: "chunk_request 32768 10 32768 1 = (10, 0)"
    by simp
  from final_flag_iff_less_than_block [OF b c]
  have y: "chunk_request 32768 32769 32768 1 = (32768, 1)"
    by simp
  from x y u n show ?thesis
    by blast
qed

text \<open>
  C3 as stated fails where \<^verbatim>\<open>toread\<close> equals the block size: the comparison of line 239
  is strict, so that chunk is handed to the encoder with \<^verbatim>\<open>more\<close> set. At level 0 with
  \<^verbatim>\<open>-b 32768\<close> on a file of 40000 bytes the first buffer written holds the 32768 bytes
  behind the header of a chunk that is not final; the final flag goes with a second chunk,
  which is empty.
\<close>

theorem final_flag_counterexample:
  "(32768::int) \<le> int (block_size_of 0) \<and>
   snd (chunk_request (block_size_of 0) 32768 (block_size_of 0) 1) \<noteq> 0 \<and>
   writes_of (zenc_main c_atoi c_atoi stored_slz 0 5 [''-0'', ''-b'', ''32768'', ''f'']
      (one_file False (replicate 40000 7) [])) =
     [(0 # replicate 32768 7, 32769), ([1, 255], 2)]"
  by (simp add: eval_defs)

subsection \<open>The summary line\<close>

lemma run_totout:
  assumes "0 \<le> totout v"
  shows "res_all (\<lambda>(u, r). 0 \<le> totout u \<and> r = report E u) (\<lambda>l. True) (run E k w v rest)"
proof (rule run_inv [where P = "\<lambda>u. 0 \<le> totout u" and Q = "\<lambda>l. True"])
  show "\<And>bs ob c m v. 0 \<le> totout v \<Longrightarrow>
      res_all (\<lambda>(c1, m1, u). 0 \<le> totout u) (\<lambda>l. True) (chunk_round E bs ob c m v)"
    by (simp add: chunk_round_def flush_check_def Let_def split: prod.split option.split)
  show "\<And>ob v. 0 \<le> totout v \<Longrightarrow>
      res_all (\<lambda>u. 0 \<le> totout u) (\<lambda>l. True) (finish_pass E ob v)"
    by (simp add: finish_pass_def Let_def split: prod.split)
qed (use assms in simp_all)

text \<open>
  C7 (amended). The summary line computes the ratio as \<^verbatim>\<open>totout * 100.0 / totin\<close> with
  no test of \<^verbatim>\<open>totin\<close>: when the total input is zero the division by zero is carried
  out, and the line shows an infinity when some output was counted and a NaN when none
  was.
\<close>

theorem ratio_is_not_guarded:
  assumes "zenc_main atoll atoi E strm0 fuel args w = Finished (v, Some s)"
  shows "s_totin s = totin v \<and> s_totout s = totout v \<and>
         s_ratio s = fdiv (totout v * 100) (totin v) \<and>
         (totin v = 0 \<longrightarrow> s_ratio s = (if totout v = 0 then NaN else PInf))"
proof -
  from assms obtain u rest where p: "parse_args atoll atoi (init_vars strm0 w) args = Inr (u, rest)"
    and f: "run E fuel w u rest = Finished (v, Some s)"
    by (cases "parse_args atoll atoi (init_vars strm0 w) args") (auto simp: zenc_main_def)
  from parse_args_keeps [OF p] have "0 \<le> totout u"
    by (simp add: init_vars_def)
  from run_totout [OF this, of E fuel w rest] f
  have t: "0 \<le> totout v" and r: "Some s = report E v"
    by simp_all
  from r have "s = \<lparr>s_totin = totin v, s_totout = totout v,
      s_ratio = fdiv (totout v * 100) (totin v), s_crc32 = crc32 E (strm v)\<rparr>"
    by (simp add: report_def split: if_splits)
  with t show ?thesis
    by (simp add: fdiv_def)
qed

theorem ratio_is_not_guarded_witness:
  "zenc_main c_atoi c_atoi stored_slz 0 2 [''-v'', ''f''] (one_file False [] []) =
     Finished
       (\<lparr>strm = 0, fd = \<lparr>data = [], rd_plan = [], st_size = Some 0\<rparr>, toread = 0,
         outbuf = [1, 255], totin = 0, totout = 2, loops = 1, console = 1, level = 3,
         verbose = 1, test = 0, format = SLZ_FMT_GZIP, force = 0, error = 0, wr_plan = [],
         wlog = [([1, 255], 2)]\<rparr>,
        Some \<lparr>s_totin = 0, s_totout = 2, s_ratio = PInf, s_crc32 = 0\<rparr>) \<and>
   fdiv (2 * 100) 0 = PInf"
proof -
  have e: "zenc_main c_atoi c_atoi stored_slz 0 2 [''-v'', ''f''] (one_file False [] []) =
     Finished
       (\<lparr>strm = 0, fd = \<lparr>data = [], rd_plan = [], st_size = Some 0\<rparr>, toread = 0,
         outbuf = [1, 255], totin = 0, totout = 2, loops = 1, console = 1, level = 3,
         verbose = 1, test = 0, format = SLZ_FMT_GZIP, force = 0, error = 0, wr_plan = [],
         wlog = [([1, 255], 2)]\<rparr>,
        Some \<lparr>s_totin = 0, s_totout = 2, s_ratio = PInf, s_crc32 = 0\<rparr>)"
    by (simp add: eval_defs)
  from ratio_is_not_guarded [OF e] e show ?thesis
    by simp
qed

text \<open>
  C7 as stated fails with \<^verbatim>\<open>-b 0\<close>: nothing is read, two bytes of framing are counted,
  and the summary holds the value of 200.0 / 0, an infinity.
\<close>

theorem ratio_zero_input_counterexample:
  "zenc_main c_atoi c_atoi stored_slz 0 2 [''-v'', ''-b'', ''0'', ''f'']
     (one_file False [10, 20, 30] []) =
     Finished
       (\<lparr>strm = 0, fd = \<lparr>data = [10, 20, 30], rd_plan = [], st_size = Some 3\<rparr>, toread = 0,
         outbuf = [1, 255], totin = 0, totout = 2, loops = 1, console = 1, level = 3,
         verbose = 1, test = 0, format = SLZ_FMT_GZIP, force = 0, error = 0, wr_plan = [],
         wlog = [([1, 255], 2)]\<rparr>,
        Some \<lparr>s_totin = 0, s_totout = 2, s_ratio = fdiv 200 0, s_crc32 = 0\<rparr>) \<and>
   fdiv 200 0 = PInf"
  by (simp add: eval_defs)

subsection \<open>Enough fuel\<close>

text \<open>
  Over a source that delivers what is asked of it and holds the bytes still to read, the
  inner loop ends within \<^verbatim>\<open>toread / block_size + 1\<close> rounds, and so does every pass.
\<close>

lemma sys_read_whole:
  assumes "rd_plan f = []" and "n \<le> length (data f)"
  shows "\<exists>buf g. sys_read f n = Some (buf, g) \<and> length buf = n \<and> rd_plan g = [] \<and>
           length (data g) = length (data f) - n"
  using assms by (simp add: sys_read_def)

lemma chunk_round_whole:
  assumes enc: "enc_bounded E bs" and bs: "0 < bs" "bs < 2 ^ 32"
    and rd: "rd_plan (fd v) = []" and len: "nat (toread v) \<le> length (data (fd v))"
    and inv: "round_inv bs (outbsize_of bs) v"
  shows "\<exists>u. chunk_round E bs (outbsize_of bs) bs 1 v =
             Finished (min (nat (toread v)) bs, if toread v < int bs then 0 else 1, u) \<and>
           round_inv bs (outbsize_of bs) u \<and> rd_plan (fd u) = [] \<and>
           toread u = toread v - int (min (nat (toread v)) bs) \<and>
           totin u = totin v + int (min (nat (toread v)) bs) \<and>
           length (data (fd u)) = length (data (fd v)) - min (nat (toread v)) bs"
proof -
  let ?n = "min (nat (toread v)) bs"
  let ?m = "if toread v < int bs then 0 else 1 :: int"
  from inv have tr: "0 \<le> toread v"
    by (simp add: round_inv_def)
  have rq: "chunk_request bs (toread v) bs 1 = (?n, ?m)"
    using tr bs(2) by (rule chunk_request_bound)
  from len have "?n \<le> length (data (fd v))"
    by simp
  from sys_read_whole [OF rd this] obtain buf g where
    r: "sys_read (fd v) ?n = Some (buf, g)" and l: "length buf = ?n" and g: "rd_plan g = []"
    and d: "length (data g) = length (data (fd v)) - ?n"
    by blast
  obtain e st where e: "slz_encode E (strm v) buf ?m = (e, st)"
    by (cases "slz_encode E (strm v) buf ?m")
  from chunk_round_safe [OF enc bs(2) inv] r e
  obtain u where f: "chunk_round E bs (outbsize_of bs) bs 1 v = Finished (?n, ?m, u)"
    and i: "round_inv bs (outbsize_of bs) u"
    by (cases "chunk_round E bs (outbsize_of bs) bs 1 v")
       (auto simp: chunk_round_def rq Let_def split: if_splits)
  from f r e l have "fd u = g" "toread u = toread v - int ?n" "totin u = totin v + int ?n"
    by (auto simp: chunk_round_def rq Let_def flush_check_def split: if_splits)
  with f i g d show ?thesis
    by auto
qed

lemma chunks_whole:
  assumes enc: "enc_bounded E bs" and bs: "0 < bs" "bs < 2 ^ 32"
  shows "rd_plan (fd v) = [] \<Longrightarrow> nat (toread v) \<le> length (data (fd v)) \<Longrightarrow>
     round_inv bs (outbsize_of bs) v \<Longrightarrow> nat (toread v) div bs < k \<Longrightarrow>
     \<exists>u. chunks E bs (outbsize_of bs) k bs 1 v = Finished u \<and> toread u = 0 \<and>
         totin u = totin v + toread v \<and> rd_plan (fd u) = [] \<and> round_inv bs (outbsize_of bs) u \<and>
         length (data (fd u)) = length (data (fd v)) - nat (toread v)"
proof (induction k arbitrary: v)
  case 0
  then show ?case by simp
next
  case (Suc k)
  from Suc.prems(3) have tr: "0 \<le> toread v"
    by (simp add: round_inv_def)
  from chunk_round_whole [OF enc bs Suc.prems(1,2,3)] obtain u where
    f: "chunk_round E bs (outbsize_of bs) bs 1 v =
          Finished (min (nat (toread v)) bs, if toread v < int bs then 0 else 1, u)"
    and i: "round_inv bs (outbsize_of bs) u" and r: "rd_plan (fd u) = []"
    and t: "toread u = toread v - int (min (nat (toread v)) bs)"
    and n: "totin u = totin v + int (min (nat (toread v)) bs)"
    and d: "length (data (fd u)) = length (data (fd v)) - min (nat (toread v)) bs"
    by blast
  show ?case
  proof (cases "toread v < int bs")
    case True
    with f i r t n d tr show ?thesis
      by (simp add: min_def)
  next
    case False
    from False tr have ge: "bs \<le> nat (toread v)"
      by simp
    then have m: "min (nat (toread v)) bs = bs"
      by simp
    with t have t': "toread u = toread v - int bs"
      by simp
    have l: "nat (toread u) \<le> length (data (fd u))"
      using Suc.prems(2) d m t' by simp
    from ge have "nat (toread v) div bs = Suc ((nat (toread v) - bs) div bs)"
      using bs(1) by (simp add: le_div_geq)
    moreover from t' tr have nu: "nat (toread u) = nat (toread v) - bs"
      by simp
    ultimately have k: "nat (toread u) div bs < k"
      using Suc.prems(4) by simp
    from Suc.IH [OF r l i k] obtain u' where
      "chunks E bs (outbsize_of bs) k bs 1 u = Finished u'" "toread u' = 0"
      "totin u' = totin u + toread u" "rd_plan (fd u') = []" "round_inv bs (outbsize_of bs) u'"
      "length (data (fd u')) = length (data (fd u)) - nat (toread u)"
      by blast
    with f False n t m d nu show ?thesis
      by simp
  qed
qed

lemma one_pass_whole:
  assumes enc: "enc_bounded E bs" and bs: "0 < bs" "bs < 2 ^ 32"
    and rd: "rd_plan (fd v) = []" and tr: "0 \<le> toread v"
    and len: "nat (toread v) \<le> length (data (fd v))" and k: "nat (toread v) div bs < k"
  shows "\<exists>u. one_pass E bs (outbsize_of bs) k v = Finished u \<and> toread u = 0 \<and>
           totin u = totin v + toread v \<and> rd_plan (fd u) = [] \<and>
           length (data (fd u)) = length (data (fd v)) - nat (toread v)"
proof -
  let ?v0 = "v\<lparr>strm := slz_init E (if level v \<noteq> 0 then 1 else 0) (format v), outbuf := []\<rparr>"
  from tr have i: "round_inv bs (outbsize_of bs) ?v0"
    by (simp add: round_inv_def outbsize_of_def)
  from chunks_whole [OF enc bs, of ?v0 k] rd len i k obtain u where
    c: "chunks E bs (outbsize_of bs) k bs 1 ?v0 = Finished u" and u: "toread u = 0"
      "totin u = totin v + toread v" "rd_plan (fd u) = []" "round_inv bs (outbsize_of bs) u"
      "length (data (fd u)) = length (data (fd v)) - nat (toread v)"
    by auto
  from finish_pass_safe [OF enc u(4)] obtain u' where
    f: "finish_pass E (outbsize_of bs) u = Finished u'"
    by (cases "finish_pass E (outbsize_of bs) u")
       (auto simp: finish_pass_def Let_def split: prod.splits if_splits)
  then have "toread u' = toread u" "totin u' = totin u" "fd u' = fd u"
    by (auto simp: finish_pass_def Let_def split: prod.splits if_splits)
  with c f u show ?thesis
    by (simp add: one_pass_def)
qed

lemma passes_whole:
  assumes enc: "enc_bounded E bs" and bs: "0 < bs" "bs < 2 ^ 32"
  shows "rd_plan (fd v) = [] \<Longrightarrow> 0 \<le> toread v \<Longrightarrow> nat (toread v) \<le> length (data (fd v)) \<Longrightarrow>
     nat (toread v) div bs < k \<Longrightarrow>
     \<exists>u. passes E bs (outbsize_of bs) k (Suc n) v = Finished u \<and> toread u = 0 \<and>
         totin u = totin v + toread v \<and>
         length (data (fd u)) = length (data (fd v)) - nat (toread v)"
proof (induction n arbitrary: v)
  case 0
  from one_pass_whole [OF enc bs 0] show ?case
    by auto
next
  case (Suc n)
  from one_pass_whole [OF enc bs Suc.prems] obtain u where
    o: "one_pass E bs (outbsize_of bs) k v = Finished u" and u: "toread u = 0"
      "totin u = totin v + toread v" "rd_plan (fd u) = []"
      "length (data (fd u)) = length (data (fd v)) - nat (toread v)"
    by blast
  from Suc.prems(4) have "0 < k"
    by simp
  with Suc.IH [of u] u obtain u' where
    "passes E bs (outbsize_of bs) k (Suc n) u = Finished u'" "toread u' = 0"
    "totin u' = totin u + toread u"
    "length (data (fd u')) = length (data (fd u)) - nat (toread u)"
    by auto
  with o u show ?case
    by simp
qed

text \<open>
  A run whose \<^verbatim>\<open>toread\<close> was negative after the option loop, over a source whose size
  \<^verbatim>\<open>fstat\<close> reports and which delivers what is asked of it, returns having read the
  whole source.
\<close>

lemma block_size_of_pos: "0 < block_size_of lvl"
  by (simp add: block_size_of_def)

lemma prepare_size:
  assumes "prepare w v rest = Inr v0" and "toread v < 0"
  shows "st_size (fd v0) = Some (nat (toread v0))"
  using assms
  by (auto simp: prepare_def Let_def resolve_toread_def split: option.splits if_splits)

lemma run_whole:
  assumes p: "prepare w v rest = Inr v0" and neg: "toread v < 0"
    and rd: "rd_plan (fd v0) = []" and sz: "st_size (fd v0) = Some (length (data (fd v0)))"
    and enc: "enc_bounded E (block_size_of (level v0))" and n: "0 < pass_count (loops v0)"
    and k: "length (data (fd v0)) div block_size_of (level v0) < fuel"
  shows "\<exists>u. run E fuel w v rest = Finished (u, report E u) \<and>
           totin u = totin v + int (length (data (fd v0))) \<and> data (fd u) = [] \<and> toread u = 0"
proof -
  let ?bs = "block_size_of (level v0)"
  from prepare_toread [OF p] have t: "0 \<le> toread v0"
    by simp
  from prepare_size [OF p neg] sz have ts: "nat (toread v0) = length (data (fd v0))"
    by simp
  with t have ti: "toread v0 = int (length (data (fd v0)))"
    by simp
  from p have tin: "totin v0 = totin v"
    by (auto simp: prepare_def Let_def split: option.splits if_splits)
  from n obtain m where m: "pass_count (loops v0) = Suc m"
    by (cases "pass_count (loops v0)") simp_all
  have l: "nat (toread v0) \<le> length (data (fd v0))"
    using ts by simp
  have kk: "nat (toread v0) div ?bs < fuel"
    using ts k by simp
  from passes_whole [OF enc block_size_of_pos block_size_of_small rd t l kk, of m]
  obtain u where
    f: "passes E ?bs (outbsize_of ?bs) fuel (Suc m) v0 = Finished u" and u: "toread u = 0"
      "totin u = totin v0 + toread v0"
      "length (data (fd u)) = length (data (fd v0)) - nat (toread v0)"
    by blast
  from u(3) ts have "data (fd u) = []"
    by simp
  with f u ti tin p m show ?thesis
    by (simp add: run_def Let_def)
qed

subsection \<open>Repeated passes\<close>

text \<open>
  C1. With \<^verbatim>\<open>-l N\<close> every pass should read the same bytes, so that the passes write the
  same stream and \<open>totin\<close> is \<open>N\<close> times that of one pass. The loop neither restores
  \<^verbatim>\<open>toread\<close> nor rewinds \<^verbatim>\<open>fd\<close>: over a source that delivers the bytes asked for, any
  number \<open>N \<ge> 1\<close> of passes, given the fuel for one, returns having read \<^verbatim>\<open>toread\<close>
  bytes in all, as many as a single pass, and leaves \<^verbatim>\<open>toread\<close> at 0. On a file of three
  bytes one pass reads 3 bytes, and with \<^verbatim>\<open>-l 2\<close> the second pass reads nothing, encodes
  the empty input and leaves \<open>totin\<close> at 3, not 6.
\<close>

theorem second_pass_reads_nothing:
  assumes "enc_bounded E block_size" and "0 < block_size" and "block_size < 2 ^ 32"
    and "rd_plan (fd v) = []" and "0 \<le> toread v"
    and "nat (toread v) \<le> length (data (fd v))"
    and "nat (toread v) div block_size < fuel"
  shows "(\<exists>u. passes E block_size (outbsize_of block_size) fuel (Suc n) v = Finished u \<and>
              toread u = 0 \<and> totin u = totin v + toread v) \<and>
   (case zenc_main c_atoi c_atoi stored_slz 0 2 [''f''] (one_file False [10, 20, 30] []) of
      Finished (v, r) \<Rightarrow> totin v = 3 \<and> wlog v = [([1, 10, 20, 30, 255], 5)]
    | _ \<Rightarrow> False) \<and>
   (case zenc_main c_atoi c_atoi stored_slz 0 2 [''-l'', ''2'', ''f'']
           (one_file False [10, 20, 30] []) of
      Finished (v, r) \<Rightarrow>
        totin v = 3 \<and> wlog v = [([1, 10, 20, 30, 255], 5), ([1, 255], 2)]
    | _ \<Rightarrow> False)"
proof -
  from passes_whole [OF assms, of n]
  have "\<exists>u. passes E block_size (outbsize_of block_size) fuel (Suc n) v = Finished u \<and>
              toread u = 0 \<and> totin u = totin v + toread v"
    by blast
  then show ?thesis
    by (simp add: eval_defs)
qed

theorem second_pass_reads_nothing_witness:
  "\<exists>u. passes stored_slz 1048576 (outbsize_of 1048576) 2 (Suc 1)
          \<lparr>strm = 0, fd = file_src [10, 20, 30], toread = 3, outbuf = [], totin = 0,
           totout = 0, loops = 2, console = 1, level = 3, verbose = 0, test = 0,
           format = SLZ_FMT_GZIP, force = 0, error = 0, wr_plan = [], wlog = []\<rparr> =
        Finished u \<and>
       toread u = 0 \<and> totin u = 3"
proof -
  let ?v = "\<lparr>strm = 0, fd = file_src [10, 20, 30], toread = 3, outbuf = [], totin = 0,
      totout = 0, loops = 2, console = 1, level = 3, verbose = 0, test = 0,
      format = SLZ_FMT_GZIP, force = 0, error = 0, wr_plan = [], wlog = []\<rparr> :: nat vars"
  have h: "enc_bounded stored_slz 1048576" "(0::nat) < 1048576" "(1048576::nat) < 2 ^ 32"
    "rd_plan (fd ?v) = []" "0 \<le> toread ?v" "nat (toread ?v) \<le> length (data (fd ?v))"
    "nat (toread ?v) div 1048576 < 2"
    by (simp_all add: stored_slz_bounded file_src_def)
  from second_pass_reads_nothing [OF h, of 1] show ?thesis
    by simp
qed

subsection \<open>A negative byte count\<close>

text \<open>
  C9 (amended). Every negative value given to \<^verbatim>\<open>-b\<close> is the same as no \<^verbatim>\<open>-b\<close> at all:
  the command line with \<^verbatim>\<open>-b x\<close> put in front, \<^verbatim>\<open>atoll\<close> of \<open>x\<close> negative, runs
  exactly as the command line without it; wherever the option stands, what follows the
  option loop runs with that value in \<^verbatim>\<open>toread\<close> exactly as with the initial -1; and
  \<^verbatim>\<open>toread\<close> is resolved to the size that \<^verbatim>\<open>fstat\<close> reports. The whole source is
  consumed when that size is the number of bytes the source holds and \<^verbatim>\<open>read\<close> delivers
  what is asked of it (a regular file): if no later \<^verbatim>\<open>-b\<close> sets a cap, the run is not
  refused before the pass loop, at least one pass is made and the encoder keeps to its
  output bound, then \<^verbatim>\<open>main\<close> returns, given fuel for \<open>size / block_size + 1\<close> rounds,
  with \<open>totin\<close> equal to the size, no byte left in the source and \<^verbatim>\<open>toread\<close> at 0.
\<close>

theorem negative_cap_is_no_cap:
  assumes "atoll x < 0"
  shows "zenc_main atoll atoi E strm0 fuel (''-b'' # x # args) w =
           zenc_main atoll atoi E strm0 fuel args w \<and>
         run E fuel w (v\<lparr>toread := atoll x\<rparr>) rest = run E fuel w (v\<lparr>toread := - 1\<rparr>) rest \<and>
         resolve_toread (atoll x) f = map_option int (st_size f) \<and>
         (parse_args atoll atoi (init_vars strm0 w) (''-b'' # x # args) = Inr (v1, rest1) \<and>
          toread v1 < 0 \<and> prepare w v1 rest1 = Inr v0 \<and>
          rd_plan (fd v0) = [] \<and> st_size (fd v0) = Some (length (data (fd v0))) \<and>
          enc_bounded E (block_size_of (level v0)) \<and> 0 < pass_count (loops v0) \<and>
          length (data (fd v0)) div block_size_of (level v0) < fuel \<longrightarrow>
          (\<exists>u. zenc_main atoll atoi E strm0 fuel (''-b'' # x # args) w = Finished (u, report E u) \<and>
               totin u = int (length (data (fd v0))) \<and> data (fd u) = [] \<and> toread u = 0))"
proof -
  have r: "resolve_toread (atoll x) f = map_option int (st_size f)"
    using assms by (simp add: resolve_toread_def)
  have "same_cap (v\<lparr>toread := atoll x\<rparr>) (v\<lparr>toread := - 1\<rparr>)"
    using assms by (simp add: same_cap_def)
  then have s: "run E fuel w (v\<lparr>toread := atoll x\<rparr>) rest = run E fuel w (v\<lparr>toread := - 1\<rparr>) rest"
    by (rule run_same_cap)
  let ?v = "init_vars strm0 w"
  have "same_cap (?v\<lparr>toread := atoll x\<rparr>) ?v"
    using assms by (simp add: same_cap_def init_vars_def)
  from parse_args_same_cap [OF this, of atoll atoi args]
  have z: "zenc_main atoll atoi E strm0 fuel (''-b'' # x # args) w =
        zenc_main atoll atoi E strm0 fuel args w"
    unfolding zenc_main_def parse_args_b
    by (cases "parse_args atoll atoi (?v\<lparr>toread := atoll x\<rparr>) args";
        cases "parse_args atoll atoi ?v args")
       (auto simp: run_same_cap same_cap_def)
  have w: "\<exists>u. zenc_main atoll atoi E strm0 fuel (''-b'' # x # args) w = Finished (u, report E u) \<and>
               totin u = int (length (data (fd v0))) \<and> data (fd u) = [] \<and> toread u = 0"
    if pa: "parse_args atoll atoi (init_vars strm0 w) (''-b'' # x # args) = Inr (v1, rest1)"
      and neg: "toread v1 < 0" and p: "prepare w v1 rest1 = Inr v0"
      and rd: "rd_plan (fd v0) = []" and sz: "st_size (fd v0) = Some (length (data (fd v0)))"
      and enc: "enc_bounded E (block_size_of (level v0))" and n: "0 < pass_count (loops v0)"
      and k: "length (data (fd v0)) div block_size_of (level v0) < fuel"
  proof -
    from parse_args_keeps [OF pa] have "totin v1 = 0"
      by (simp add: init_vars_def)
    with run_whole [OF p neg rd sz enc n k] pa show ?thesis
      by (simp add: zenc_main_def)
  qed
  from r s z w show ?thesis
    by blast
qed

theorem negative_cap_is_no_cap_witness:
  "c_atoi ''-7'' < 0 \<and>
   zenc_main c_atoi c_atoi stored_slz 0 2 [''-b'', ''-7'', ''f''] (one_file False [10, 20, 30] []) =
   zenc_main c_atoi c_atoi stored_slz 0 2 [''f''] (one_file False [10, 20, 30] []) \<and>
   resolve_toread (c_atoi ''-7'') (file_src [10, 20, 30]) = Some 3 \<and>
   (\<exists>u. zenc_main c_atoi c_atoi stored_slz 0 2 [''-b'', ''-7'', ''f'']
           (one_file False [10, 20, 30] []) = Finished (u, report stored_slz u) \<and>
        totin u = 3 \<and> data (fd u) = [] \<and> toread u = 0)"
proof -
  let ?w = "one_file False [10, 20, 30] []"
  let ?v1 = "init_vars (0::nat) ?w\<lparr>toread := - 7\<rparr>"
  let ?v0 = "?v1\<lparr>fd := file_src [10, 20, 30], toread := 3\<rparr>"
  have h: "c_atoi ''-7'' < 0"
    by (simp add: c_atoi_def)
  have pa: "parse_args c_atoi c_atoi (init_vars 0 ?w) [''-b'', ''-7'', ''f''] = Inr (?v1, [''f''])"
    by (simp add: c_atoi_def is_level_opt_def)
  have p: "prepare ?w ?v1 [''f''] = Inr ?v0"
    by (simp add: eval_defs)
  have c: "toread ?v1 < 0" "rd_plan (fd ?v0) = []"
    "st_size (fd ?v0) = Some (length (data (fd ?v0)))"
    "enc_bounded stored_slz (block_size_of (level ?v0))" "0 < pass_count (loops ?v0)"
    "length (data (fd ?v0)) div block_size_of (level ?v0) < 2"
    by (simp_all add: stored_slz_bounded file_src_def init_vars_def pass_count_def
          block_size_of_def)
  note T = negative_cap_is_no_cap [where atoll = c_atoi and x = "''-7''" and atoi = c_atoi
      and E = stored_slz and ?strm0.0 = 0 and fuel = 2 and args = "[''f'']"
      and w = ?w and f = "file_src [10, 20, 30]"
      and v = "init_vars 0 ?w" and rest = "[''f'']"
      and ?v1.0 = ?v1 and ?rest1.0 = "[''f'']" and ?v0.0 = ?v0, OF h]
  from T have e1: "zenc_main c_atoi c_atoi stored_slz 0 2 [''-b'', ''-7'', ''f''] ?w =
      zenc_main c_atoi c_atoi stored_slz 0 2 [''f''] ?w"
    by blast
  from T have "resolve_toread (c_atoi ''-7'') (file_src [10, 20, 30]) =
      map_option int (st_size (file_src [10, 20, 30]))"
    by blast
  then have e3: "resolve_toread (c_atoi ''-7'') (file_src [10, 20, 30]) = Some 3"
    by (simp add: file_src_def)
  from T pa p c have "\<exists>u. zenc_main c_atoi c_atoi stored_slz 0 2 [''-b'', ''-7'', ''f''] ?w =
        Finished (u, report stored_slz u) \<and>
      totin u = int (length (data (fd ?v0))) \<and> data (fd u) = [] \<and> toread u = 0"
    by blast
  then have e4: "\<exists>u. zenc_main c_atoi c_atoi stored_slz 0 2 [''-b'', ''-7'', ''f''] ?w =
        Finished (u, report stored_slz u) \<and>
      totin u = 3 \<and> data (fd u) = [] \<and> toread u = 0"
    by (simp add: file_src_def)
  from h e1 e3 e4 show ?thesis
    by blast
qed

text \<open>
  C9 as stated fails where \<^verbatim>\<open>fstat\<close> does not report the number of bytes the source
  holds: with \<^verbatim>\<open>-b -7\<close> and a pipe of three bytes on standard input, \<^verbatim>\<open>toread\<close> is
  resolved to 0, \<^verbatim>\<open>read\<close> is asked for no byte, and \<^verbatim>\<open>main\<close> returns with \<open>totin\<close> at
  0 and the three bytes still in the pipe.
\<close>

theorem negative_cap_pipe_counterexample:
  "c_atoi ''-7'' < 0 \<and>
   (case zenc_main c_atoi c_atoi stored_slz 0 2 [''-b'', ''-7''] (one_pipe [10, 20, 30]) of
      Finished (v, r) \<Rightarrow> totin v = 0 \<and> data (fd v) = [10, 20, 30] \<and> wlog v = [([1, 255], 2)]
    | _ \<Rightarrow> False)"
  by (simp add: eval_defs pipe_src_def one_pipe_def)

end
